theory Spec2Isabelle
  imports Complex_Main "HOL-Library.Word" "HOL-Library.FSet" "HOL-Library.List_Lexorder"
    "HOL-Library.Char_ord"
begin

section \<open>Machine types and errors\<close>

text \<open>
  \<open>size_t\<close> is the 64-bit unsigned integer of the target; all of its arithmetic wraps
  modulo \<open>2 ^ 64\<close>. A finite \<open>double\<close> is modelled by the real number it denotes; the
  rounding of its arithmetic is in section \<open>Double arithmetic\<close>.

  Modelled from the spec: \<open>CircUnit\<close> and \<open>BitLen\<close> are declared in \<open>seltypes.h\<close>,
  which is not among the sources. The specification has the secure result equal the
  32-bit clear result, and the test compares it with the result computed on
  \<open>uint32_t\<close>: \<open>CircUnit\<close> is the unsigned integer of \<open>BitLen = 32\<close> bits.
\<close>

type_synonym size_t = "64 word"
type_synonym CircUnit = "32 word"
type_synonym FieldName = string
type_synonym Weight = real

text \<open>
  The exceptions of the C++ sources, as values. \<open>InvalidArgument\<close> is
  \<open>std::invalid_argument\<close> (the specification's \<open>InvalidConfig\<close> and
  \<open>PrecisionOverflow\<close>), \<open>OutOfRange\<close> is what \<open>std::map::at\<close> throws,
  \<open>RuntimeError\<close> is \<open>std::runtime_error\<close>, \<open>AssertionFailed\<close> is a failing
  \<open>assert\<close> and \<open>UndefinedBehaviour\<close> marks an operation without defined result.
\<close>

datatype error =
    InvalidArgument
  | OutOfRange
  | RuntimeError
  | AssertionFailed
  | UndefinedBehaviour

section \<open>Numeric primitives\<close>

text \<open>
  Modelled from the spec: \<open>ceil_log2\<close> and \<open>ceil_log2_min1\<close> are declared in
  \<open>math.h\<close>, which is not among the sources. The specification says that
  \<open>ceil_log2(n)\<close> is the smallest \<open>k\<close> with \<open>2^k \<ge> n\<close>, and that the variant
  \<open>ceil_log2_min1\<close> returns \<open>1\<close> for \<open>n \<le> 1\<close>.
\<close>

function ceil_log2_nat :: "nat \<Rightarrow> nat" where
  "ceil_log2_nat n = (if n \<le> 1 then 0 else Suc (ceil_log2_nat ((n + 1) div 2)))"
  by pat_completeness auto
termination
  by (relation "measure id") auto

declare ceil_log2_nat.simps [simp del]

definition ceil_log2 :: "size_t \<Rightarrow> size_t" where
  "ceil_log2 x = of_nat (ceil_log2_nat (unat x))"

definition ceil_log2_min1 :: "size_t \<Rightarrow> size_t" where
  "ceil_log2_min1 x = (if x \<le> 1 then 1 else ceil_log2 x)"

text \<open>\<open>hw_size\<close> of \<open>epilink_input.cpp\<close>.\<close>

definition hw_size :: "size_t \<Rightarrow> size_t" where
  "hw_size sz = ceil_log2_min1 (sz + 1)"

section \<open>Field and link configuration\<close>

datatype FieldComparator = DICE | BINARY

record ML_Field =
  name :: FieldName
  weight :: Weight
  comparator :: FieldComparator
  bitsize :: size_t

text \<open>
  \<open>std::map<FieldName, ML_Field>\<close> is the list of its entries in iteration order.
  \<open>IndexSet = std::set<FieldName>\<close> is a finite set of names: it holds no name twice,
  and a loop over it visits the names in increasing order (\<open>sorted_list_of_fset\<close>,
  strings being ordered lexicographically by character code).
\<close>

type_synonym IndexSet = "FieldName fset"

text \<open>The member \<open>fields\<close> of the class is the record field \<open>cfg_fields\<close>.\<close>

record EpilinkConfig =
  cfg_fields :: "(FieldName \<times> ML_Field) list"
  exchange_groups :: "IndexSet list"
  threshold :: real
  tthreshold :: real
  matching_mode :: bool
  bitlen :: size_t
  nfields :: size_t
  max_weight :: Weight
  dice_prec :: size_t
  weight_prec :: size_t

text \<open>\<open>fields.at(k)\<close>: throws \<open>std::out_of_range\<close> for a missing key.\<close>

definition fields_at :: "(FieldName \<times> ML_Field) list \<Rightarrow> FieldName \<Rightarrow> error + ML_Field" where
  "fields_at fs k = (case map_of fs k of None \<Rightarrow> Inl OutOfRange | Some f \<Rightarrow> Inr f)"

text \<open>
  Modelled from the spec: \<open>sel::max_element\<close> is declared in \<open>util.h\<close>, which is not
  among the sources. The configuration's \<open>max_weight\<close> is the largest of the fields'
  weights; on an empty container there is no element to return.
\<close>

fun max_element :: "real list \<Rightarrow> real option" where
  "max_element [] = None"
| "max_element (x # xs) = (case max_element xs of None \<Rightarrow> Some x | Some m \<Rightarrow> Some (max x m))"

text \<open>The loop of the constructor that finds the longest bitmask.\<close>

definition max_bm_size :: "(FieldName \<times> ML_Field) list \<Rightarrow> size_t" where
  "max_bm_size fs =
     fold (\<lambda>f m. if comparator (snd f) = DICE then max m (bitsize (snd f)) else m) fs 0"

text \<open>
  The sanity checks of the exchange groups. The inner loop runs over the names of one
  group in iteration order, with \<open>f0\<close> the group's first field and \<open>xgunion\<close> the
  set of the names seen so far; \<open>xgunion.insert\<close> reports a name that is already there.
\<close>

fun check_group ::
  "(FieldName \<times> ML_Field) list \<Rightarrow> ML_Field \<Rightarrow> FieldName list \<Rightarrow> IndexSet
     \<Rightarrow> error + IndexSet" where
  "check_group fs f0 [] xgunion = Inr xgunion"
| "check_group fs f0 (fname # rest) xgunion =
     (if fname |\<in>| xgunion then Inl InvalidArgument
      else case fields_at fs fname of
        Inl e \<Rightarrow> Inl e
      | Inr f \<Rightarrow>
          if comparator f \<noteq> comparator f0 then Inl InvalidArgument
          else if bitsize f \<noteq> bitsize f0 then Inl InvalidArgument
          else check_group fs f0 rest (finsert fname xgunion))"

text \<open>
  The outer loop. \<open>*group.cbegin()\<close> is the least name of the group; for an empty group
  it dereferences the end iterator, which has no defined behaviour.
\<close>

fun check_exchange_groups ::
  "(FieldName \<times> ML_Field) list \<Rightarrow> IndexSet list \<Rightarrow> IndexSet \<Rightarrow> error + IndexSet" where
  "check_exchange_groups fs [] xgunion = Inr xgunion"
| "check_exchange_groups fs (grp # groups) xgunion =
     (case sorted_list_of_fset grp of
        [] \<Rightarrow> Inl UndefinedBehaviour
      | g0 # rest \<Rightarrow>
          (case fields_at fs g0 of
             Inl e \<Rightarrow> Inl e
           | Inr f0 \<Rightarrow>
               (case check_group fs f0 (g0 # rest) xgunion of
                  Inl e \<Rightarrow> Inl e
                | Inr xgunion' \<Rightarrow> check_exchange_groups fs groups xgunion')))"

text \<open>
  The constructor \<open>EpilinkConfig::EpilinkConfig\<close>: member initialisation, the default
  precision planner with its \<open>assert\<close> (taken as compiled in), then the checks of the
  exchange groups. An exception leaves no object behind.
\<close>

definition EpilinkConfig_ctor ::
  "(FieldName \<times> ML_Field) list \<Rightarrow> IndexSet list \<Rightarrow> real \<Rightarrow> real \<Rightarrow> bool \<Rightarrow> size_t
     \<Rightarrow> error + EpilinkConfig" where
  "EpilinkConfig_ctor fields' exchange_groups' threshold' tthreshold' matching_mode' bitlen' =
     (case max_element (map (\<lambda>f. weight (snd f)) fields') of
        None \<Rightarrow> Inl UndefinedBehaviour
      | Some mw \<Rightarrow>
          let n = (of_nat (length fields') :: size_t);
              dp = 16 - 1 - hw_size (max_bm_size fields');
              wp = (bitlen' - ceil_log2 (n * n) - dp) div 2
          in if \<not> (dp + 2 * wp + ceil_log2 (n * n) \<le> bitlen') then Inl AssertionFailed
             else (case check_exchange_groups fields' exchange_groups' {||} of
                     Inl e \<Rightarrow> Inl e
                   | Inr _ \<Rightarrow>
                       Inr \<lparr> cfg_fields = fields', exchange_groups = exchange_groups',
                             threshold = threshold', tthreshold = tthreshold',
                             matching_mode = matching_mode', bitlen = bitlen',
                             nfields = n, max_weight = mw,
                             dice_prec = dp, weight_prec = wp \<rparr>))"

text \<open>
  \<open>EpilinkConfig::set_precisions\<close> mutates the object; the model returns the error
  thrown (if any) together with the object after the call.
\<close>

definition set_precisions ::
  "size_t \<Rightarrow> size_t \<Rightarrow> EpilinkConfig \<Rightarrow> error option \<times> EpilinkConfig" where
  "set_precisions dice_prec' weight_prec' cfg =
     (if dice_prec' + 2 * weight_prec' + ceil_log2 (nfields cfg * nfields cfg) > bitlen cfg
      then (Some InvalidArgument, cfg)
      else (None, cfg\<lparr>dice_prec := dice_prec', weight_prec := weight_prec'\<rparr>))"

text \<open>\<open>EpilinkConfig::set_ideal_precision\<close>, with its two local variables.\<close>

definition set_ideal_precision :: "EpilinkConfig \<Rightarrow> error option \<times> EpilinkConfig" where
  "set_ideal_precision cfg =
     (let bits_av = bitlen cfg - ceil_log2 (nfields cfg * nfields cfg);
          dice_prec0 = bits_av div 3;
          weight_prec0 = dice_prec0;
          dice_prec1 = (if bits_av mod 3 = 1 then dice_prec0 + 1 else dice_prec0);
          weight_prec1 =
            (if bits_av mod 3 = 1 then weight_prec0
             else if bits_av mod 3 = 2 then weight_prec0 + 1 else weight_prec0)
      in set_precisions dice_prec1 weight_prec1 cfg)"

section \<open>Double arithmetic\<close>

text \<open>
  \<open>Weight\<close> is \<open>double\<close>. A finite \<open>double\<close> is modelled by the real number it
  denotes, and an arithmetic operation by the exact result rounded to the nearest
  \<open>double\<close>, ties going to the even significand (IEEE 754 binary64 in the default
  rounding mode: 53 significant bits, least normal exponent \<open>-1022\<close>).

  \<open>ilog2 x\<close> is the binary exponent of a positive \<open>x\<close>, the integer \<open>e\<close> with
  \<open>2^e \<le> x < 2^(e+1)\<close>, found by halving and doubling.
\<close>

function ilog2 :: "real \<Rightarrow> int" where
  "ilog2 x = (if x \<le> 0 then 0
              else if 2 \<le> x then ilog2 (x / 2) + 1
              else if x < 1 then ilog2 (x * 2) - 1
              else 0)"
  by pat_completeness auto
termination
proof (relation "measure (\<lambda>x. if x < 1 then nat \<lceil>- log 2 x\<rceil> + 1 else nat \<lfloor>log 2 x\<rfloor>)")
  show "wf (measure (\<lambda>x. if x < 1 then nat \<lceil>- log 2 x\<rceil> + 1 else nat \<lfloor>log 2 x\<rfloor>))"
    by (rule wf_measure)
next
  fix x :: real
  assume a: "\<not> x \<le> 0" "2 \<le> x"
  then have l: "log 2 (x / 2) = log 2 x - 1" by (simp add: log_divide)
  from a have "1 \<le> log 2 x" by (simp add: le_log_iff)
  then have "1 \<le> \<lfloor>log 2 x\<rfloor>" by (simp add: le_floor_iff)
  moreover have "\<lfloor>log 2 x - 1\<rfloor> = \<lfloor>log 2 x\<rfloor> - 1" by (rule floor_diff_one)
  ultimately have "nat \<lfloor>log 2 (x / 2)\<rfloor> < nat \<lfloor>log 2 x\<rfloor>" unfolding l by simp
  moreover from a have "\<not> x / 2 < 1" and "\<not> x < 1" by simp_all
  ultimately show "(x / 2, x) \<in> measure (\<lambda>x. if x < 1 then nat \<lceil>- log 2 x\<rceil> + 1 else nat \<lfloor>log 2 x\<rfloor>)"
    unfolding in_measure by (simp only: if_False)
next
  fix x :: real
  assume a: "\<not> x \<le> 0" "\<not> 2 \<le> x" "x < 1"
  then have l: "log 2 (x * 2) = log 2 x + 1" by (simp add: log_mult)
  show "(x * 2, x) \<in> measure (\<lambda>x. if x < 1 then nat \<lceil>- log 2 x\<rceil> + 1 else nat \<lfloor>log 2 x\<rfloor>)"
  proof (cases "x * 2 < 1")
    case True
    then have "log 2 (x * 2) < 0" using a by simp
    then have "1 < - log 2 x" using l by simp
    then have "1 < \<lceil>- log 2 x\<rceil>" by (simp add: less_ceiling_iff)
    moreover have "\<lceil>- log 2 x - 1\<rceil> = \<lceil>- log 2 x\<rceil> - 1" by (rule ceiling_diff_one)
    moreover have "- log 2 (x * 2) = - log 2 x - 1" using l by simp
    ultimately have "nat \<lceil>- log 2 (x * 2)\<rceil> + 1 < nat \<lceil>- log 2 x\<rceil> + 1" by simp
    with True a(3) show ?thesis unfolding in_measure by (simp only: if_True)
  next
    case False
    then have "1 \<le> x * 2" by simp
    then have "0 \<le> log 2 (x * 2)" using a by simp
    moreover from a have "log 2 (x * 2) < 1" by (simp add: log_less_iff)
    ultimately have "\<lfloor>log 2 (x * 2)\<rfloor> = 0" by (intro floor_unique) simp_all
    then have "nat \<lfloor>log 2 (x * 2)\<rfloor> < nat \<lceil>- log 2 x\<rceil> + 1" by simp
    with False a(3) show ?thesis unfolding in_measure by (simp only: if_True if_False)
  qed
qed

declare ilog2.simps [simp del]

text \<open>Rounding to the nearest integer, a tie going to the even one.\<close>

definition round_half_even :: "real \<Rightarrow> int" where
  "round_half_even y =
     (let f = \<lfloor>y\<rfloor>; d = y - of_int f
      in if d < 1 / 2 then f else if 1 / 2 < d then f + 1 else if even f then f else f + 1)"

text \<open>
  Rounding to the nearest \<open>double\<close>: the spacing of the doubles around \<open>x\<close> is
  \<open>2^(e - 52)\<close> for the exponent \<open>e\<close> of \<open>x\<close>, and \<open>2^(-1074)\<close> below the normal
  range. The exponent is not bounded above here; \<open>double_of_real\<close> does that.
\<close>

definition round_to_double :: "real \<Rightarrow> real" where
  "round_to_double x =
     (if x = 0 then 0
      else let e = max (ilog2 \<bar>x\<bar>) (- 1022);
               ulp = 2 powi (e - 52)
           in of_int (round_half_even (x / ulp)) * ulp)"

text \<open>
  The result of an operation whose exact value is \<open>x\<close>. It is \<open>None\<close> when the
  rounded value needs an exponent above \<open>1023\<close>: the operation then yields an infinity,
  which is no finite \<open>double\<close>.
\<close>

definition double_of_real :: "real \<Rightarrow> real option" where
  "double_of_real x =
     (let r = round_to_double x in if r = 0 \<or> ilog2 \<bar>r\<bar> < 1024 then Some r else None)"

text \<open>
  Sum, product and quotient of two finite doubles. Division by zero yields an infinity
  or a NaN.
\<close>

definition double_add :: "real \<Rightarrow> real \<Rightarrow> real option" where
  "double_add a b = double_of_real (a + b)"

definition double_mul :: "real \<Rightarrow> real \<Rightarrow> real option" where
  "double_mul a b = double_of_real (a * b)"

definition double_div :: "real \<Rightarrow> real \<Rightarrow> real option" where
  "double_div a b = (if b = 0 then None else double_of_real (a / b))"

text \<open>
  \<open>llround\<close> rounds to the nearest integer, a tie going away from zero; the result
  must be a \<open>long long\<close>.
\<close>

definition llround :: "real \<Rightarrow> int option" where
  "llround x =
     (let r = (if 0 \<le> x then \<lfloor>x + 1 / 2\<rfloor> else \<lceil>x - 1 / 2\<rceil>)
      in if - (2 ^ 63) \<le> r \<and> r < 2 ^ 63 then Some r else None)"

text \<open>
  \<open>rescale_weight\<close> of \<open>epilink_input.cpp\<close>. \<open>1ULL << prec\<close> has no defined value
  for \<open>prec \<ge> 64\<close>; \<open>max_el\<close> is converted to \<open>double\<close> for the multiplication, and
  the \<open>long long\<close> that \<open>llround\<close> returns is converted to \<open>unsigned long long\<close>.
  The result is \<open>None\<close> where the C++ expression has no defined finite value.
\<close>

definition rescale_weight :: "Weight \<Rightarrow> size_t \<Rightarrow> Weight \<Rightarrow> 64 word option" where
  "rescale_weight weight' prec' max_weight' =
     (if 64 \<le> prec' then None
      else
        let max_el = push_bit (unat prec') 1 - 1 :: 64 word
        in case double_div weight' max_weight' of
             None \<Rightarrow> None
           | Some q \<Rightarrow>
               (case double_mul q (round_to_double (of_int (uint max_el))) of
                  None \<Rightarrow> None
                | Some p \<Rightarrow>
                    (case llround p of
                       None \<Rightarrow> None
                     | Some r \<Rightarrow> Some (word_of_int r))))"

section \<open>The circuit builder\<close>

text \<open>
  The call \<open>rescale_weight((fleft.weight + fright.weight)/2, cfg.weight_prec,
  cfg.max_weight)\<close> of \<open>SELCircuit::field_weight\<close>, after the two checks that precede
  it. The average and \<open>rescale_weight\<close> itself are \<open>double\<close> arithmetic with
  rounding, which is not modelled: the call is represented by its operands.
\<close>

record rescale_weight_call =
  left_weight :: Weight
  right_weight :: Weight
  prec :: size_t
  divisor :: Weight

definition field_weight_rescale ::
  "EpilinkConfig \<Rightarrow> FieldName \<Rightarrow> FieldName \<Rightarrow> error + rescale_weight_call" where
  "field_weight_rescale cfg ileft iright =
     (case fields_at (cfg_fields cfg) ileft of
        Inl e \<Rightarrow> Inl e
      | Inr fleft \<Rightarrow>
          (case fields_at (cfg_fields cfg) iright of
             Inl e \<Rightarrow> Inl e
           | Inr fright \<Rightarrow>
               if comparator fleft \<noteq> comparator fright then Inl RuntimeError
               else if bitsize fleft \<noteq> bitsize fright then Inl RuntimeError
               else Inr \<lparr> left_weight = weight fleft, right_weight = weight fright,
                          prec = weight_prec cfg, divisor = max_weight cfg \<rparr>))"

text \<open>
  The expression \<open>(1 << cfg.dice_prec)\<close> of \<open>set_constants\<close> has type \<open>int\<close>: a
  shift by 31 gives the most negative \<open>int\<close>, a shift by 32 or more has no defined
  value.
\<close>

definition int_shl_1 :: "size_t \<Rightarrow> int option" where
  "int_shl_1 p =
     (if p < 31 then Some (2 ^ unat p) else if p = 31 then Some (- (2 ^ 31)) else None)"

text \<open>
  Conversion of a \<open>double\<close> to \<open>CircUnit\<close>: the value is truncated towards zero and
  must then be representable in 32 bits.
\<close>

definition double_to_CircUnit :: "real \<Rightarrow> CircUnit option" where
  "double_to_CircUnit x =
     (let t = (if 0 \<le> x then \<lfloor>x\<rfloor> else \<lceil>x\<rceil>)
      in if 0 \<le> t \<and> t < 2 ^ 32 then Some (word_of_int t) else None)"

text \<open>
  The two threshold constants \<open>T\<close> and \<open>Tt\<close> of \<open>SELCircuit::set_constants\<close>. The
  product of a \<open>double\<close> with a power of two is exact. The result is \<open>None\<close> where
  the C++ expressions have no defined value.
\<close>

definition set_constants :: "EpilinkConfig \<Rightarrow> (CircUnit \<times> CircUnit) option" where
  "set_constants cfg =
     (case int_shl_1 (dice_prec cfg) of
        None \<Rightarrow> None
      | Some s \<Rightarrow>
          (case double_to_CircUnit (threshold cfg * of_int s) of
             None \<Rightarrow> None
           | Some T \<Rightarrow>
               (case double_to_CircUnit (tthreshold cfg * of_int s) of
                  None \<Rightarrow> None
                | Some Tt \<Rightarrow> Some (T, Tt))))"

text \<open>
  The winning quotient after the argmax over the lanes, and steps 5 and 6 of
  \<open>SELCircuit::build_circuit\<close>: arithmetic shares multiply modulo \<open>2 ^ 32\<close>, boolean
  shares compare as unsigned numbers.
\<close>

record ArithQuotient =
  num :: CircUnit
  den :: CircUnit

definition threshold_tests :: "EpilinkConfig \<Rightarrow> ArithQuotient \<Rightarrow> (bool \<times> bool) option" where
  "threshold_tests cfg sum_field_weights =
     (case set_constants cfg of
        None \<Rightarrow> None
      | Some (const_threshold, const_tthreshold) \<Rightarrow>
          let threshold_weight = const_threshold * den sum_field_weights;
              tthreshold_weight = const_tthreshold * den sum_field_weights;
              b_sum_field_weight = num sum_field_weights;
              match = (threshold_weight < b_sum_field_weight);
              tmatch = (tthreshold_weight < b_sum_field_weight)
          in Some (match, tmatch))"

section \<open>The engine facade\<close>

text \<open>
  Of the members of \<open>SecureEpilinker\<close> only the two state flags take part in the life
  cycle. A member function that can throw returns the object after the call together
  with the exception or the result.
\<close>

record SecureEpilinker =
  is_built :: bool
  is_setup :: bool

record Result =
  index :: CircUnit
  match :: bool
  tmatch :: bool

definition build_circuit :: "32 word \<Rightarrow> SecureEpilinker \<Rightarrow> SecureEpilinker \<times> (error + unit)" where
  "build_circuit nvals sel = (sel\<lparr>is_built := True\<rparr>, Inr ())"

definition run_setup_phase :: "SecureEpilinker \<Rightarrow> SecureEpilinker \<times> (error + unit)" where
  "run_setup_phase sel =
     (if \<not> is_built sel then (sel, Inl RuntimeError)
      else (sel\<lparr>is_setup := True\<rparr>, Inr ()))"

text \<open>
  \<open>run_circuit\<close>: the argument \<open>circuit\<close> is what building the circuit on the inputs
  and executing it with the backend yields, an exception or the clear outputs.
\<close>

definition run_circuit ::
  "(error + Result) \<Rightarrow> SecureEpilinker \<Rightarrow> SecureEpilinker \<times> (error + Result)" where
  "run_circuit circuit sel =
     (case circuit of
        Inl e \<Rightarrow> (sel, Inl e)
      | Inr res \<Rightarrow> (sel\<lparr>is_setup := False\<rparr>, Inr res))"

text \<open>
  \<open>run_as_client\<close> and \<open>run_as_server\<close>: the argument \<open>set_input\<close> is the outcome of
  \<open>set_client_input\<close> (or \<open>set_server_input\<close>), which throws on inputs of the wrong
  shape.
\<close>

definition run_as_client ::
  "(error + unit) \<Rightarrow> (error + Result) \<Rightarrow> SecureEpilinker \<Rightarrow> SecureEpilinker \<times> (error + Result)" where
  "run_as_client set_input circuit sel =
     (case (if \<not> is_setup sel then run_setup_phase sel else (sel, Inr ())) of
        (sel1, Inl e) \<Rightarrow> (sel1, Inl e)
      | (sel1, Inr _) \<Rightarrow>
          (case set_input of
             Inl e \<Rightarrow> (sel1, Inl e)
           | Inr _ \<Rightarrow> run_circuit circuit sel1))"

definition run_as_server ::
  "(error + unit) \<Rightarrow> (error + Result) \<Rightarrow> SecureEpilinker \<Rightarrow> SecureEpilinker \<times> (error + Result)" where
  "run_as_server set_input circuit sel =
     (case (if \<not> is_setup sel then run_setup_phase sel else (sel, Inr ())) of
        (sel1, Inl e) \<Rightarrow> (sel1, Inl e)
      | (sel1, Inr _) \<Rightarrow>
          (case set_input of
             Inl e \<Rightarrow> (sel1, Inl e)
           | Inr _ \<Rightarrow> run_circuit circuit sel1))"

definition reset :: "SecureEpilinker \<Rightarrow> SecureEpilinker" where
  "reset sel = sel\<lparr>is_built := False, is_setup := False\<rparr>"

section \<open>Example inputs\<close>

text \<open>The bitmask field \<open>bm_1\<close> and the integer field \<open>int_1\<close> of the test data.\<close>

definition bm_1 :: ML_Field where
  "bm_1 = \<lparr> name = ''bm_1'', weight = 2, comparator = DICE, bitsize = 8 \<rparr>"

definition int_1 :: ML_Field where
  "int_1 = \<lparr> name = ''int_1'', weight = 1, comparator = BINARY, bitsize = 29 \<rparr>"

text \<open>
  The configuration the constructor builds for the single field \<open>bm_1\<close> without
  exchange groups, thresholds \<open>1/2\<close> and \<open>1/4\<close>, on 32 bits.
\<close>

definition cfg_bm_1 :: EpilinkConfig where
  "cfg_bm_1 =
     \<lparr> cfg_fields = [(''bm_1'', bm_1)], exchange_groups = [],
       threshold = 1 / 2, tthreshold = 1 / 4, matching_mode = False, bitlen = 32,
       nfields = 1, max_weight = 2, dice_prec = 11, weight_prec = 10 \<rparr>"

definition bm_2 :: ML_Field where
  "bm_2 = \<lparr> name = ''bm_2'', weight = 4, comparator = DICE, bitsize = 8 \<rparr>"

text \<open>A field map of three fields, in the order of their names.\<close>

definition fields_3 :: "(FieldName \<times> ML_Field) list" where
  "fields_3 = [(''bm_1'', bm_1), (''bm_2'', bm_2), (''int_1'', int_1)]"

text \<open>The engine as constructed, and some clear result of a run.\<close>

definition created :: SecureEpilinker where
  "created = \<lparr> is_built = False, is_setup = False \<rparr>"

definition result_0 :: Result where
  "result_0 = \<lparr> index = 0, match = True, tmatch = True \<rparr>"


section \<open>Properties of the numeric primitives\<close>

text \<open>
  The recursive \<open>ceil_log2_nat\<close> is the function the specification describes:
  \<open>ceil_log2_nat n\<close> is the smallest \<open>k\<close> with \<open>n \<le> 2 ^ k\<close>.
\<close>

lemma ceil_log2_nat_ge: "n \<le> 2 ^ ceil_log2_nat n"
proof (induction n rule: ceil_log2_nat.induct)
  case (1 n)
  show ?case
  proof (cases "n \<le> 1")
    case True
    then show ?thesis by (simp add: ceil_log2_nat.simps)
  next
    case False
    with 1 have "(n + 1) div 2 \<le> 2 ^ ceil_log2_nat ((n + 1) div 2)" by simp
    moreover have "n \<le> 2 * ((n + 1) div 2)" by arith
    ultimately have "n \<le> 2 * 2 ^ ceil_log2_nat ((n + 1) div 2)" by linarith
    with False show ?thesis by (subst ceil_log2_nat.simps) simp
  qed
qed

lemma ceil_log2_nat_least: "n \<le> 2 ^ k \<Longrightarrow> ceil_log2_nat n \<le> k"
proof (induction n arbitrary: k rule: ceil_log2_nat.induct)
  case (1 n)
  show ?case
  proof (cases "n \<le> 1")
    case True
    then show ?thesis by (simp add: ceil_log2_nat.simps)
  next
    case False
    with 1(2) have "k \<noteq> 0" by (cases k) auto
    then obtain k' where k: "k = Suc k'" by (cases k) auto
    with 1(2) have "n \<le> 2 * 2 ^ k'" by simp
    then have "(n + 1) div 2 \<le> 2 ^ k'" by arith
    with 1(1) False have "ceil_log2_nat ((n + 1) div 2) \<le> k'" by simp
    with False k show ?thesis by (subst ceil_log2_nat.simps) simp
  qed
qed

lemma ceil_log2_nat_Least: "ceil_log2_nat n = (LEAST k. n \<le> 2 ^ k)"
  by (rule Least_equality [symmetric]) (auto intro: ceil_log2_nat_ge ceil_log2_nat_least)

lemma ceil_log2_nat_le_64: "n < 2 ^ 64 \<Longrightarrow> ceil_log2_nat n \<le> 64"
  by (rule ceil_log2_nat_least) simp

lemma unat_ceil_log2: "unat (ceil_log2 x) = ceil_log2_nat (unat x)"
proof -
  have "unat x < 2 ^ 64" using unsigned_less [of x] by simp
  then have "ceil_log2_nat (unat x) \<le> 64" by (rule ceil_log2_nat_le_64)
  then show ?thesis by (simp add: ceil_log2_def unat_of_nat)
qed

lemma mod3_cases:
  fixes b :: size_t
  shows "b mod 3 = 0 \<or> b mod 3 = 1 \<or> b mod 3 = 2"
proof -
  have "unat (b mod 3) < 3" by (simp add: unat_mod_distrib)
  then consider "unat (b mod 3) = 0" | "unat (b mod 3) = 1" | "unat (b mod 3) = 2" by arith
  then show ?thesis
  proof cases
    case 1
    then show ?thesis by (simp add: unat_0_iff)
  next
    case 2
    have "b mod 3 = of_nat (unat (b mod 3))" by simp
    also have "\<dots> = 1" unfolding 2 by simp
    finally show ?thesis by simp
  next
    case 3
    have "b mod 3 = of_nat (unat (b mod 3))" by simp
    also have "\<dots> = 2" unfolding 3 by simp
    finally show ?thesis by simp
  qed
qed

lemma thirds_sum:
  fixes b :: size_t
  shows "(b div 3 + (if b mod 3 = 1 then 1 else 0))
         + 2 * (b div 3 + (if b mod 3 = 2 then 1 else 0)) = b"
proof -
  have e: "b div 3 * 3 + b mod 3 = b" by (rule word_mod_div_equality)
  have "(b div 3 + (if b mod 3 = 1 then 1 else 0)) + 2 * (b div 3 + (if b mod 3 = 2 then 1 else 0))
      = b div 3 * 3 + b mod 3"
    using mod3_cases[of b] by (auto simp: algebra_simps)
  with e show ?thesis by simp
qed

lemma planner_assert:
  fixes bl c dp :: size_t
  assumes "bl \<noteq> 0"
  shows "dp + 2 * ((bl - c - dp) div 2) + c \<le> bl"
proof -
  define x where "x = bl - c - dp"
  have e: "x div 2 * 2 + x mod 2 = x" by (rule word_mod_div_equality)
  have "dp + 2 * (x div 2) + c = dp + (x div 2 * 2 + x mod 2) + c - x mod 2" by (simp add: algebra_simps)
  also have "\<dots> = bl - x mod 2" unfolding e by (simp add: x_def)
  finally have eq: "dp + 2 * (x div 2) + c = bl - x mod 2" .
  have "unat (x mod 2) < 2" by (simp add: unat_mod_distrib)
  then have m: "x mod 2 \<le> 1" by (simp add: word_le_nat_alt)
  have "1 \<le> bl" using assms by (simp add: word_le_nat_alt unat_gt_0 Suc_leI)
  with m have "x mod 2 \<le> bl" by simp
  then have "bl - x mod 2 \<le> bl" by (simp add: word_le_nat_alt unat_sub)
  with eq show ?thesis unfolding x_def by simp
qed

section \<open>Properties of the constructor\<close>

lemma Max_insert_max:
  fixes a b :: "'a::linorder"
  assumes "finite S"
  shows "Max (insert (max a b) S) = Max (insert a (insert b S))"
proof (cases "S = {}")
  case True
  then show ?thesis by simp
next
  case False
  with assms show ?thesis by (simp add: max.assoc)
qed

lemma fold_max_dice:
  fixes a :: size_t
  shows "fold (\<lambda>f m. if comparator (snd f) = DICE then max m (bitsize (snd f)) else m) fs a
     = Max (insert a (set (map (\<lambda>f. bitsize (snd f)) (filter (\<lambda>f. comparator (snd f) = DICE) fs))))"
proof (induction fs arbitrary: a)
  case Nil
  then show ?case by simp
next
  case (Cons g fs)
  show ?case
  proof (cases "comparator (snd g) = DICE")
    case True
    then show ?thesis
      using Cons.IH[of "max a (bitsize (snd g))"]
      by (simp add: Max_insert_max del: Max_insert)
  next
    case False
    then show ?thesis using Cons.IH[of a] by simp
  qed
qed

lemma max_bm_size_Max:
  "max_bm_size fs =
     Max (insert 0 (set (map (\<lambda>f. bitsize (snd f)) (filter (\<lambda>f. comparator (snd f) = DICE) fs))))"
  unfolding max_bm_size_def by (rule fold_max_dice)

text \<open>What the constructor returns when it returns an object.\<close>

lemma ctor_InrD:
  assumes "EpilinkConfig_ctor fs gs t tt mm bl = Inr cfg"
  shows "cfg_fields cfg = fs" and "exchange_groups cfg = gs"
    and "threshold cfg = t" and "tthreshold cfg = tt" and "bitlen cfg = bl"
    and "nfields cfg = of_nat (length fs)"
    and "dice_prec cfg = 16 - 1 - hw_size (max_bm_size fs)"
    and "weight_prec cfg = (bl - ceil_log2 (of_nat (length fs) * of_nat (length fs)) - dice_prec cfg) div 2"
    and "dice_prec cfg + 2 * weight_prec cfg + ceil_log2 (nfields cfg * nfields cfg) \<le> bitlen cfg"
    and "max_element (map (\<lambda>f. weight (snd f)) fs) = Some (max_weight cfg)"
  using assms
  by (auto simp: EpilinkConfig_ctor_def Let_def split: option.splits sum.splits if_splits)

section \<open>The precision planner\<close>

lemma set_precisions_exact:
  "a + 2 * b + ceil_log2 (nfields cfg * nfields cfg) = bitlen cfg \<Longrightarrow>
   set_precisions a b cfg = (None, cfg\<lparr>dice_prec := a, weight_prec := b\<rparr>)"
  by (simp add: set_precisions_def)

lemma set_ideal_precision_eq:
  "set_ideal_precision cfg =
     (let bits_av = bitlen cfg - ceil_log2 (nfields cfg * nfields cfg)
      in (None, cfg\<lparr>dice_prec := bits_av div 3 + (if bits_av mod 3 = 1 then 1 else 0),
                     weight_prec := bits_av div 3 + (if bits_av mod 3 = 2 then 1 else 0)\<rparr>))"
proof -
  define b where "b = bitlen cfg - ceil_log2 (nfields cfg * nfields cfg)"
  have bc: "b + ceil_log2 (nfields cfg * nfields cfg) = bitlen cfg" by (simp add: b_def)
  have s: "(b div 3 + (if b mod 3 = 1 then 1 else 0)) + 2 * (b div 3 + (if b mod 3 = 2 then 1 else 0)) 
      + ceil_log2 (nfields cfg * nfields cfg) = bitlen cfg"
    using thirds_sum[of b] bc by simp
  have "set_ideal_precision cfg = set_precisions (b div 3 + (if b mod 3 = 1 then 1 else 0))
           (b div 3 + (if b mod 3 = 2 then 1 else 0)) cfg"
    unfolding set_ideal_precision_def Let_def b_def by simp
  also have "\<dots> = (None, cfg\<lparr>dice_prec := b div 3 + (if b mod 3 = 1 then 1 else 0),
                     weight_prec := b div 3 + (if b mod 3 = 2 then 1 else 0)\<rparr>)"
    by (rule set_precisions_exact[OF s])
  finally show ?thesis unfolding Let_def b_def .
qed

lemma set_precisions_budget:
  "set_precisions a b cfg = (None, cfg') \<Longrightarrow>
   dice_prec cfg' + 2 * weight_prec cfg' + ceil_log2 (nfields cfg' * nfields cfg') \<le> bitlen cfg'"
  by (auto simp: set_precisions_def split: if_splits)

lemma set_ideal_precision_budget:
  assumes "set_ideal_precision cfg = (None, cfg')"
  shows "dice_prec cfg' + 2 * weight_prec cfg' + ceil_log2 (nfields cfg' * nfields cfg') \<le> bitlen cfg'"
proof -
  obtain a b where "set_ideal_precision cfg = set_precisions a b cfg"
    by (simp add: set_ideal_precision_def Let_def)
  with assms show ?thesis by (simp add: set_precisions_budget)
qed

text \<open>
  The precisions of the default planner keep the budget for every non-zero \<open>bitlen\<close>:
  the assertion of the constructor does not fail.
\<close>

lemma ctor_assert_passes:
  assumes "bl \<noteq> 0"
  shows "EpilinkConfig_ctor fs gs t tt mm bl \<noteq> Inl AssertionFailed"
proof -
  have cg: "check_group fs f0 g X \<noteq> Inl AssertionFailed" for f0 g X
    by (induction g arbitrary: X) (auto simp: fields_at_def split: option.splits)
  have ce: "check_exchange_groups fs gs X \<noteq> Inl AssertionFailed" for X
  proof (induction gs arbitrary: X)
    case Nil
    then show ?case by simp
  next
    case (Cons g gs)
    show ?case
    proof (cases "sorted_list_of_fset g")
      case Nil
      then show ?thesis by simp
    next
      case (Cons g0 rest)
      then show ?thesis
        using cg Cons.IH
        by (auto simp add: fields_at_def simp del: check_group.simps split: option.splits sum.splits)
    qed
  qed
  have as: "16 - 1 - hw_size (max_bm_size fs)
        + 2 * ((bl - ceil_log2 (of_nat (length fs) * of_nat (length fs))
                   - (16 - 1 - hw_size (max_bm_size fs))) div 2)
        + ceil_log2 (of_nat (length fs) * of_nat (length fs)) \<le> bl"
    by (rule planner_assert [OF assms])
  show ?thesis
  proof (cases "max_element (map (\<lambda>f. weight (snd f)) fs)")
    case None
    then show ?thesis by (simp add: EpilinkConfig_ctor_def)
  next
    case (Some mw)
    show ?thesis
      unfolding EpilinkConfig_ctor_def Some Let_def option.case using as ce [of "{||}"]
      by (simp only: not_True_eq_False if_False split: sum.splits) auto
  qed
qed

text \<open>
  In the arithmetic of \<open>size_t\<close> the inequality of the budget holds of every
  configuration the constructor returns and after every successful \<open>set_precisions\<close>
  or \<open>set_ideal_precision\<close>: it is what the constructor asserts and what
  \<open>set_precisions\<close> tests. This is a statement modulo \<open>2 ^ 64\<close>; of the numbers of
  bits themselves it holds only where nothing wraps around (section
  \<open>The budget over the natural numbers\<close>).
\<close>

lemma budget_modulo:
  "(EpilinkConfig_ctor fs gs t tt mm bl = Inr cfg \<longrightarrow>
      dice_prec cfg + 2 * weight_prec cfg + ceil_log2 (nfields cfg * nfields cfg) \<le> bitlen cfg)
   \<and> (bl \<noteq> 0 \<longrightarrow> EpilinkConfig_ctor fs gs t tt mm bl \<noteq> Inl AssertionFailed)
   \<and> (set_precisions a b cfg1 = (None, cfg2) \<longrightarrow>
      dice_prec cfg2 + 2 * weight_prec cfg2 + ceil_log2 (nfields cfg2 * nfields cfg2) \<le> bitlen cfg2)
   \<and> (set_ideal_precision cfg3 = (None, cfg4) \<longrightarrow>
      dice_prec cfg4 + 2 * weight_prec cfg4 + ceil_log2 (nfields cfg4 * nfields cfg4) \<le> bitlen cfg4)"
  using ctor_InrD(9) ctor_assert_passes set_precisions_budget set_ideal_precision_budget
  by blast

text \<open>
  Claim C2. The planner of the constructor sets \<open>dice_prec = 16 - 1 - hw_size m\<close>,
  where \<open>m\<close> is the largest bitsize among the fields compared by \<open>DICE\<close> (\<open>0\<close> when
  there is none), and \<open>weight_prec = (bitlen - ceil_log2 (nfields * nfields) -
  dice_prec) / 2\<close> with integer division; \<open>hw_size w\<close> is \<open>ceil_log2 (w + 1)\<close> with
  the value \<open>1\<close> for arguments up to \<open>1\<close>, and \<open>ceil_log2 x\<close> is the least \<open>k\<close>
  with \<open>x \<le> 2 ^ k\<close>. The arithmetic is that of \<open>size_t\<close>.
\<close>

theorem default_precision_planner:
  assumes "EpilinkConfig_ctor fs gs t tt mm bl = Inr cfg"
  shows "dice_prec cfg =
           16 - 1 - hw_size (Max (insert 0 (set (map (\<lambda>f. bitsize (snd f))
                                  (filter (\<lambda>f. comparator (snd f) = DICE) fs)))))
       \<and> weight_prec cfg =
           (bitlen cfg - ceil_log2 (nfields cfg * nfields cfg) - dice_prec cfg) div 2
       \<and> nfields cfg = of_nat (length fs) \<and> bitlen cfg = bl
       \<and> hw_size w = (if w + 1 \<le> 1 then 1 else ceil_log2 (w + 1))
       \<and> unat (ceil_log2 x) = (LEAST k. unat x \<le> 2 ^ k)"
  using ctor_InrD[OF assms]
  by (simp add: max_bm_size_Max hw_size_def ceil_log2_min1_def unat_ceil_log2 ceil_log2_nat_Least)

text \<open>
  For the single bitmask field of 8 bits on 32 bits: \<open>hw_size 8 = 4\<close>, so
  \<open>dice_prec = 11\<close> and \<open>weight_prec = 10\<close>.
\<close>

theorem default_precision_planner_witness:
  "EpilinkConfig_ctor [(''bm_1'', bm_1)] [] (1 / 2) (1 / 4) False 32 = Inr cfg_bm_1
   \<and> dice_prec cfg_bm_1 = 16 - 1 - hw_size 8 \<and> hw_size 8 = 4 \<and> dice_prec cfg_bm_1 = 11
   \<and> weight_prec cfg_bm_1 = (32 - ceil_log2 (1 * 1) - 11) div 2 \<and> weight_prec cfg_bm_1 = 10"
proof -
  have c: "EpilinkConfig_ctor [(''bm_1'', bm_1)] [] (1 / 2) (1 / 4) False 32 = Inr cfg_bm_1"
    by code_simp
  have h: "hw_size 8 = 4" by code_simp
  have l: "ceil_log2 1 = 0" by code_simp
  show ?thesis
    using c h l default_precision_planner [OF c, of 8 1]
    by (simp add: cfg_bm_1_def bm_1_def)
qed

text \<open>
  Claim C3 as stated fails. With one field on 32 bits there are 32 available bits, two
  of them left over by the division by three: the claim gives one of them to
  \<open>dice_prec\<close>, the code leaves \<open>dice_prec\<close> at \<open>10\<close> and only raises \<open>weight_prec\<close>
  to \<open>11\<close>. The precisions \<open>11\<close> and \<open>11\<close> of the claim need 33 bits:
  \<open>set_precisions\<close> refuses them.
\<close>

theorem set_ideal_precision_leftover_counterexample:
  "(bitlen cfg_bm_1 - ceil_log2 (nfields cfg_bm_1 * nfields cfg_bm_1)) mod 3 = 2
   \<and> (bitlen cfg_bm_1 - ceil_log2 (nfields cfg_bm_1 * nfields cfg_bm_1)) div 3 = 10
   \<and> set_ideal_precision cfg_bm_1 = (None, cfg_bm_1\<lparr>dice_prec := 10, weight_prec := 11\<rparr>)
   \<and> dice_prec (snd (set_ideal_precision cfg_bm_1)) \<noteq> 10 + 1
   \<and> set_precisions (10 + 1) (10 + 1) cfg_bm_1 = (Some InvalidArgument, cfg_bm_1)"
  by code_simp

text \<open>
  Claim C3, amended. \<open>set_ideal_precision\<close> always succeeds and sets both precisions
  to a third of \<open>bits_av = bitlen - ceil_log2 (nfields * nfields)\<close>; one leftover bit
  goes to \<open>dice_prec\<close>, and of two leftover bits \<open>weight_prec\<close> alone is incremented
  (it counts twice in the budget), \<open>dice_prec\<close> is not.
\<close>

theorem set_ideal_precision_thirds:
  "set_ideal_precision cfg =
     (let bits_av = bitlen cfg - ceil_log2 (nfields cfg * nfields cfg)
      in (None, cfg\<lparr>dice_prec := bits_av div 3 + (if bits_av mod 3 = 1 then 1 else 0),
                     weight_prec := bits_av div 3 + (if bits_av mod 3 = 2 then 1 else 0)\<rparr>))"
  by (rule set_ideal_precision_eq)

text \<open>
  The guard of \<open>set_precisions\<close>, in the arithmetic of \<open>size_t\<close>: the call throws
  \<open>std::invalid_argument\<close> exactly if the sum computed modulo \<open>2 ^ 64\<close> exceeds
  \<open>bitlen\<close>; then the object is unchanged, and otherwise its precisions are \<open>a\<close> and
  \<open>b\<close>.
\<close>

lemma set_precisions_guard:
  "(fst (set_precisions a b cfg) = Some InvalidArgument \<longleftrightarrow>
      a + 2 * b + ceil_log2 (nfields cfg * nfields cfg) > bitlen cfg)
   \<and> (fst (set_precisions a b cfg) = None \<longleftrightarrow>
      \<not> a + 2 * b + ceil_log2 (nfields cfg * nfields cfg) > bitlen cfg)
   \<and> (fst (set_precisions a b cfg) = Some InvalidArgument \<longrightarrow>
        snd (set_precisions a b cfg) = cfg)
   \<and> (fst (set_precisions a b cfg) = None \<longrightarrow>
        snd (set_precisions a b cfg) = cfg\<lparr>dice_prec := a, weight_prec := b\<rparr>)"
  by (simp add: set_precisions_def)

section \<open>The checks of the exchange groups\<close>

lemma max_element_Max: "xs \<noteq> [] \<Longrightarrow> max_element xs = Some (Max (set xs))"
proof (induction xs)
  case Nil
  then show ?case by simp
next
  case (Cons x xs)
  show ?case
  proof (cases "xs = []")
    case True
    then show ?thesis by simp
  next
    case False
    with Cons.IH have "max_element xs = Some (Max (set xs))" by simp
    with False show ?thesis by simp
  qed
qed

lemma fields_at_Some: "map_of fs k = Some f \<Longrightarrow> fields_at fs k = Inr f"
  by (simp add: fields_at_def)

lemma check_group_eq:
  assumes "\<forall>a\<in>set g. map_of fs a \<noteq> None"
  shows "check_group fs f0 g X =
     (if distinct g \<and> set g \<inter> fset X = {}
         \<and> (\<forall>a\<in>set g. comparator (the (map_of fs a)) = comparator f0
                        \<and> bitsize (the (map_of fs a)) = bitsize f0)
      then Inr (X |\<union>| fset_of_list g) else Inl InvalidArgument)"
  using assms
proof (induction g arbitrary: X)
  case Nil
  then show ?case by simp
next
  case (Cons a g)
  from Cons.prems obtain f where f: "map_of fs a = Some f" by auto
  from Cons.prems have rest: "\<forall>a\<in>set g. map_of fs a \<noteq> None" by simp
  show ?case
  proof (cases "a |\<in>| X")
    case True
    then show ?thesis by auto
  next
    case notin: False
    show ?thesis
    proof (cases "comparator f = comparator f0 \<and> bitsize f = bitsize f0")
      case False
      with notin f show ?thesis by (auto simp: fields_at_Some)
    next
      case True
      have "check_group fs f0 (a # g) X = check_group fs f0 g (finsert a X)"
        using notin f True by (simp add: fields_at_Some)
      also have "\<dots> = (if distinct g \<and> set g \<inter> fset (finsert a X) = {}
         \<and> (\<forall>a\<in>set g. comparator (the (map_of fs a)) = comparator f0
                        \<and> bitsize (the (map_of fs a)) = bitsize f0)
          then Inr (finsert a X |\<union>| fset_of_list g) else Inl InvalidArgument)"
        by (rule Cons.IH [OF rest])
      also have "\<dots> = (if distinct (a # g) \<and> set (a # g) \<inter> fset X = {}
         \<and> (\<forall>a\<in>set (a # g). comparator (the (map_of fs a)) = comparator f0
                        \<and> bitsize (the (map_of fs a)) = bitsize f0)
          then Inr (X |\<union>| fset_of_list (a # g)) else Inl InvalidArgument)"
        using notin f True by auto
      finally show ?thesis .
    qed
  qed
qed

text \<open>The checks of one group, as a set.\<close>

lemma check_group_fset:
  assumes "\<forall>a\<in>fset g. map_of fs a \<noteq> None"
  shows "check_group fs f0 (sorted_list_of_fset g) X =
     (if fset g \<inter> fset X = {}
         \<and> (\<forall>a\<in>fset g. comparator (the (map_of fs a)) = comparator f0
                        \<and> bitsize (the (map_of fs a)) = bitsize f0)
      then Inr (X |\<union>| g) else Inl InvalidArgument)"
proof -
  have d: "distinct (sorted_list_of_fset g)" by (simp add: sorted_list_of_fset.rep_eq)
  have s: "set (sorted_list_of_fset g) = fset g" by simp
  have n: "\<forall>a\<in>set (sorted_list_of_fset g). map_of fs a \<noteq> None" using assms by simp
  show ?thesis
    unfolding check_group_eq [OF n] s by (simp add: d)
qed

lemma check_exchange_groups_Cons:
  assumes "g \<noteq> {||}" and "map_of fs (hd (sorted_list_of_fset g)) = Some f0"
  shows "check_exchange_groups fs (g # gs) X =
     (case check_group fs f0 (sorted_list_of_fset g) X of
        Inl e \<Rightarrow> Inl e
      | Inr X' \<Rightarrow> check_exchange_groups fs gs X')"
proof (cases "sorted_list_of_fset g")
  case Nil
  then have "fset_of_list (sorted_list_of_fset g) = {||}" by simp
  with assms(1) show ?thesis by simp
next
  case (Cons g0 rest)
  with assms(2) show ?thesis by (simp add: fields_at_Some del: check_group.simps)
qed

text \<open>
  No name is in two groups: the names of all groups, listed group by group, are distinct.
\<close>

lemma mem_concat_groups:
  "a \<in> set (concat (map sorted_list_of_fset gs)) \<longleftrightarrow> length (filter (\<lambda>g. a |\<in>| g) gs) \<noteq> 0"
  by (induction gs) simp_all

lemma count_step:
  fixes c :: "'a \<Rightarrow> nat"
  shows "(\<forall>a. c a \<le> 1) \<and> (\<forall>a. P a \<longrightarrow> c a = 0) \<longleftrightarrow> (\<forall>a. (if P a then Suc (c a) else c a) \<le> 1)"
proof
  assume "(\<forall>a. c a \<le> 1) \<and> (\<forall>a. P a \<longrightarrow> c a = 0)"
  then show "\<forall>a. (if P a then Suc (c a) else c a) \<le> 1" by simp
next
  assume r: "\<forall>a. (if P a then Suc (c a) else c a) \<le> 1"
  have "c a \<le> 1" for a using r [rule_format, of a] by (cases "P a") simp_all
  moreover have "c a = 0" if "P a" for a using r [rule_format, of a] that by simp
  ultimately show "(\<forall>a. c a \<le> 1) \<and> (\<forall>a. P a \<longrightarrow> c a = 0)" by blast
qed

lemma groups_disjoint_iff:
  "distinct (concat (map sorted_list_of_fset gs))
     \<longleftrightarrow> (\<forall>a. length (filter (\<lambda>g. a |\<in>| g) gs) \<le> 1)"
proof (induction gs)
  case Nil
  then show ?case by simp
next
  case (Cons g gs)
  define L where "L = concat (map sorted_list_of_fset gs)"
  define c where "c a = length (filter (\<lambda>g. a |\<in>| g) gs)" for a
  have d: "distinct (sorted_list_of_fset g)" by (simp add: sorted_list_of_fset.rep_eq)
  have m: "a \<in> set L \<longleftrightarrow> c a \<noteq> 0" for a
    unfolding L_def c_def by (rule mem_concat_groups)
  have ih: "distinct L \<longleftrightarrow> (\<forall>a. c a \<le> 1)"
    unfolding L_def c_def by (rule Cons.IH)
  have "concat (map sorted_list_of_fset (g # gs)) = sorted_list_of_fset g @ L"
    by (simp add: L_def)
  then have "distinct (concat (map sorted_list_of_fset (g # gs)))
      \<longleftrightarrow> distinct L \<and> fset g \<inter> set L = {}"
    using d by (simp only: distinct_append sorted_list_of_fset_simps) blast
  also have "\<dots> \<longleftrightarrow> (\<forall>a. c a \<le> 1) \<and> (\<forall>a. a |\<in>| g \<longrightarrow> c a = 0)"
    unfolding ih using m by blast
  also have "\<dots> \<longleftrightarrow> (\<forall>a. (if a |\<in>| g then Suc (c a) else c a) \<le> 1)"
    by (rule count_step)
  also have "\<dots> \<longleftrightarrow> (\<forall>a. length (filter (\<lambda>g. a |\<in>| g) (g # gs)) \<le> 1)"
    by (simp add: c_def)
  finally show ?case .
qed

lemma check_exchange_groups_eq:
  assumes "\<forall>g\<in>set gs. g \<noteq> {||} \<and> (\<forall>a\<in>fset g. map_of fs a \<noteq> None)"
  shows "check_exchange_groups fs gs X =
     (if distinct (concat (map sorted_list_of_fset gs))
         \<and> set (concat (map sorted_list_of_fset gs)) \<inter> fset X = {}
         \<and> (\<forall>g\<in>set gs. \<forall>a\<in>fset g.
                comparator (the (map_of fs a)) = comparator (the (map_of fs (hd (sorted_list_of_fset g))))
              \<and> bitsize (the (map_of fs a)) = bitsize (the (map_of fs (hd (sorted_list_of_fset g)))))
      then Inr (X |\<union>| fset_of_list (concat (map sorted_list_of_fset gs))) else Inl InvalidArgument)"
  using assms
proof (induction gs arbitrary: X)
  case Nil
  then show ?case by simp
next
  case (Cons g gs)
  define l where "l = sorted_list_of_fset g"
  have sl: "set l = fset g" and fl: "fset_of_list l = g"
    by (simp_all add: l_def)
  have dl: "distinct l" by (simp add: l_def sorted_list_of_fset.rep_eq)
  from Cons.prems have ne: "g \<noteq> {||}" by simp
  then have lne: "l \<noteq> []" using fl by auto
  then have hd_in: "hd l \<in> fset g" using sl by (metis list.set_sel(1))
  from Cons.prems have names: "\<forall>a\<in>fset g. map_of fs a \<noteq> None" by simp
  with hd_in obtain f0 where f0: "map_of fs (hd l) = Some f0" by auto
  from Cons.prems have rest: "\<forall>g\<in>set gs. g \<noteq> {||} \<and> (\<forall>a\<in>fset g. map_of fs a \<noteq> None)" by simp
  define ok where "ok \<longleftrightarrow> fset g \<inter> fset X = {}
         \<and> (\<forall>a\<in>fset g. comparator (the (map_of fs a)) = comparator f0
                        \<and> bitsize (the (map_of fs a)) = bitsize f0)"
  define oks where "oks Y \<longleftrightarrow> distinct (concat (map sorted_list_of_fset gs))
         \<and> set (concat (map sorted_list_of_fset gs)) \<inter> fset Y = {}
         \<and> (\<forall>g\<in>set gs. \<forall>a\<in>fset g.
                comparator (the (map_of fs a)) = comparator (the (map_of fs (hd (sorted_list_of_fset g))))
              \<and> bitsize (the (map_of fs a)) = bitsize (the (map_of fs (hd (sorted_list_of_fset g)))))" for Y
  have cg: "check_group fs f0 (sorted_list_of_fset g) X = (if ok then Inr (X |\<union>| g) else Inl InvalidArgument)"
    unfolding ok_def by (rule check_group_fset [OF names])
  have ih: "check_exchange_groups fs gs Y =
      (if oks Y then Inr (Y |\<union>| fset_of_list (concat (map sorted_list_of_fset gs))) else Inl InvalidArgument)" for Y
    unfolding oks_def by (rule Cons.IH [OF rest])
  have step: "check_exchange_groups fs (g # gs) X =
      (if ok \<and> oks (X |\<union>| g)
       then Inr (X |\<union>| g |\<union>| fset_of_list (concat (map sorted_list_of_fset gs)))
       else Inl InvalidArgument)"
    unfolding check_exchange_groups_Cons [OF ne f0 [unfolded l_def]] cg by (simp add: ih)
  have cond: "(ok \<and> oks (X |\<union>| g)) \<longleftrightarrow>
      (distinct (concat (map sorted_list_of_fset (g # gs)))
         \<and> set (concat (map sorted_list_of_fset (g # gs))) \<inter> fset X = {}
         \<and> (\<forall>g\<in>set (g # gs). \<forall>a\<in>fset g.
                comparator (the (map_of fs a)) = comparator (the (map_of fs (hd (sorted_list_of_fset g))))
              \<and> bitsize (the (map_of fs a)) = bitsize (the (map_of fs (hd (sorted_list_of_fset g))))))"
    unfolding ok_def oks_def using f0 dl sl unfolding l_def by auto
  have res: "X |\<union>| g |\<union>| fset_of_list (concat (map sorted_list_of_fset gs))
      = X |\<union>| fset_of_list (concat (map sorted_list_of_fset (g # gs)))"
    using fl unfolding l_def by (simp add: fset_of_list_append funion_assoc del: sorted_list_of_fset_simps) 
  show ?case unfolding step cond res ..
qed

text \<open>Within a non-empty group, agreeing with the first field is agreeing pairwise.\<close>

lemma uniform_hd_iff:
  assumes "h \<in> S"
  shows "(\<forall>a\<in>S. P a = P h) \<longleftrightarrow> (\<forall>a\<in>S. \<forall>b\<in>S. P a = P b)"
proof
  assume "\<forall>a\<in>S. P a = P h"
  then show "\<forall>a\<in>S. \<forall>b\<in>S. P a = P b" by simp
next
  assume "\<forall>a\<in>S. \<forall>b\<in>S. P a = P b"
  with assms show "\<forall>a\<in>S. P a = P h" by blast
qed

lemma groups_uniform_iff:
  assumes "\<forall>g\<in>G. h g \<in> S g"
  shows "(\<forall>g\<in>G. \<forall>a\<in>S g. P a = P (h g) \<and> Q a = Q (h g))
     \<longleftrightarrow> (\<forall>g\<in>G. \<forall>a\<in>S g. \<forall>b\<in>S g. P a = P b)
        \<and> (\<forall>g\<in>G. \<forall>a\<in>S g. \<forall>b\<in>S g. Q a = Q b)"
proof -
  have "(\<forall>a\<in>S g. P a = P (h g) \<and> Q a = Q (h g))
     \<longleftrightarrow> (\<forall>a\<in>S g. \<forall>b\<in>S g. P a = P b) \<and> (\<forall>a\<in>S g. \<forall>b\<in>S g. Q a = Q b)"
    if "g \<in> G" for g
  proof -
    from that assms have ne: "h g \<in> S g" by simp
    have "(\<forall>a\<in>S g. P a = P (h g) \<and> Q a = Q (h g))
      \<longleftrightarrow> (\<forall>a\<in>S g. P a = P (h g)) \<and> (\<forall>a\<in>S g. Q a = Q (h g))"
      by blast
    then show ?thesis
      unfolding uniform_hd_iff [OF ne, of P] uniform_hd_iff [OF ne, of Q] .
  qed
  then show ?thesis by blast
qed

lemma hd_sorted_list_of_fset: "g \<noteq> {||} \<Longrightarrow> hd (sorted_list_of_fset g) \<in> fset g"
proof -
  assume "g \<noteq> {||}"
  then have "sorted_list_of_fset g \<noteq> []"
    by (metis sorted_list_of_fset_simps(2) fset_of_list_simps(1))
  then have "hd (sorted_list_of_fset g) \<in> set (sorted_list_of_fset g)" by (rule hd_in_set)
  then show ?thesis by simp
qed

lemma check_exchange_groups_pairwise:
  assumes "\<forall>g\<in>set gs. g \<noteq> {||} \<and> (\<forall>a\<in>fset g. map_of fs a \<noteq> None)"
  shows "check_exchange_groups fs gs {||} =
      (if (\<forall>a. length (filter (\<lambda>g. a |\<in>| g) gs) \<le> 1)
         \<and> (\<forall>g\<in>set gs. \<forall>a\<in>fset g. \<forall>b\<in>fset g.
               comparator (the (map_of fs a)) = comparator (the (map_of fs b)))
         \<and> (\<forall>g\<in>set gs. \<forall>a\<in>fset g. \<forall>b\<in>fset g.
               bitsize (the (map_of fs a)) = bitsize (the (map_of fs b)))
       then Inr (fset_of_list (concat (map sorted_list_of_fset gs))) else Inl InvalidArgument)"
proof -
  have ne: "\<forall>g\<in>set gs. hd (sorted_list_of_fset g) \<in> fset g"
    using assms hd_sorted_list_of_fset by blast
  have u: "(\<forall>g\<in>set gs. \<forall>a\<in>fset g.
                comparator (the (map_of fs a)) = comparator (the (map_of fs (hd (sorted_list_of_fset g))))
              \<and> bitsize (the (map_of fs a)) = bitsize (the (map_of fs (hd (sorted_list_of_fset g)))))
       \<longleftrightarrow> (\<forall>g\<in>set gs. \<forall>a\<in>fset g. \<forall>b\<in>fset g.
               comparator (the (map_of fs a)) = comparator (the (map_of fs b)))
         \<and> (\<forall>g\<in>set gs. \<forall>a\<in>fset g. \<forall>b\<in>fset g.
               bitsize (the (map_of fs a)) = bitsize (the (map_of fs b)))"
    by (rule groups_uniform_iff [OF ne, of "\<lambda>a. comparator (the (map_of fs a))"
          "\<lambda>a. bitsize (the (map_of fs a))"])
  have e: "check_exchange_groups fs gs {||} =
     (if distinct (concat (map sorted_list_of_fset gs))
         \<and> set (concat (map sorted_list_of_fset gs)) \<inter> fset {||} = {}
         \<and> (\<forall>g\<in>set gs. \<forall>a\<in>fset g.
                comparator (the (map_of fs a)) = comparator (the (map_of fs (hd (sorted_list_of_fset g))))
              \<and> bitsize (the (map_of fs a)) = bitsize (the (map_of fs (hd (sorted_list_of_fset g)))))
      then Inr ({||} |\<union>| fset_of_list (concat (map sorted_list_of_fset gs))) else Inl InvalidArgument)"
    by (rule check_exchange_groups_eq [OF assms])
  have i: "set (concat (map sorted_list_of_fset gs)) \<inter> fset {||} = {}"
    and j: "{||} |\<union>| fset_of_list (concat (map sorted_list_of_fset gs))
              = fset_of_list (concat (map sorted_list_of_fset gs))" by simp_all
  show ?thesis
    unfolding e u i j groups_disjoint_iff by (simp only: simp_thms)
qed

lemma ctor_checks_eq:
  assumes "fs \<noteq> []" and "bl \<noteq> 0"
    and "\<forall>g\<in>set gs. g \<noteq> {||} \<and> (\<forall>a\<in>fset g. map_of fs a \<noteq> None)"
  shows "EpilinkConfig_ctor fs gs t tt mm bl =
     (if (\<forall>a. length (filter (\<lambda>g. a |\<in>| g) gs) \<le> 1)
         \<and> (\<forall>g\<in>set gs. \<forall>a\<in>fset g. \<forall>b\<in>fset g.
               comparator (the (map_of fs a)) = comparator (the (map_of fs b)))
         \<and> (\<forall>g\<in>set gs. \<forall>a\<in>fset g. \<forall>b\<in>fset g.
               bitsize (the (map_of fs a)) = bitsize (the (map_of fs b)))
      then Inr \<lparr> cfg_fields = fs, exchange_groups = gs, threshold = t, tthreshold = tt,
                 matching_mode = mm, bitlen = bl, nfields = of_nat (length fs),
                 max_weight = Max (set (map (\<lambda>f. weight (snd f)) fs)),
                 dice_prec = 16 - 1 - hw_size (max_bm_size fs),
                 weight_prec = (bl - ceil_log2 (of_nat (length fs) * of_nat (length fs))
                                   - (16 - 1 - hw_size (max_bm_size fs))) div 2 \<rparr>
      else Inl InvalidArgument)"
  (is "_ = (if ?ok then Inr ?cfg else _)")
proof -
  have mw: "max_element (map (\<lambda>f. weight (snd f)) fs) = Some (Max (set (map (\<lambda>f. weight (snd f)) fs)))"
    using assms(1) by (intro max_element_Max) simp
  have as: "16 - 1 - hw_size (max_bm_size fs)
        + 2 * ((bl - ceil_log2 (of_nat (length fs) * of_nat (length fs)) - (16 - 1 - hw_size (max_bm_size fs))) div 2)
        + ceil_log2 (of_nat (length fs) * of_nat (length fs)) \<le> bl"
    by (rule planner_assert [OF assms(2)])
  have ce: "check_exchange_groups fs gs {||} =
      (if ?ok then Inr (fset_of_list (concat (map sorted_list_of_fset gs))) else Inl InvalidArgument)"
    by (rule check_exchange_groups_pairwise [OF assms(3)])
  have step: "EpilinkConfig_ctor fs gs t tt mm bl =
      (case check_exchange_groups fs gs {||} of Inl e \<Rightarrow> Inl e | Inr _ \<Rightarrow> Inr ?cfg)"
    unfolding EpilinkConfig_ctor_def mw Let_def option.case using as
    by (simp only: not_True_eq_False if_False)
  show ?thesis
  proof (cases ?ok)
    case True
    have "check_exchange_groups fs gs {||} = Inr (fset_of_list (concat (map sorted_list_of_fset gs)))"
      unfolding ce by (rule if_P [OF True])
    then have "EpilinkConfig_ctor fs gs t tt mm bl = Inr ?cfg"
      unfolding step by (simp only: sum.case)
    then show ?thesis unfolding if_P [OF True] .
  next
    case False
    have "check_exchange_groups fs gs {||} = Inl InvalidArgument"
      unfolding ce by (rule if_not_P [OF False])
    then have "EpilinkConfig_ctor fs gs t tt mm bl = Inl InvalidArgument"
      unfolding step by (simp only: sum.case)
    then show ?thesis unfolding if_not_P [OF False] .
  qed
qed

text \<open>
  Claim C9, amended. For a non-empty field map, a non-zero \<open>bitlen\<close> and exchange
  groups that are non-empty sets of names of configured fields: the constructor throws
  \<open>std::invalid_argument\<close> whenever some name belongs to more than one of the groups, or
  two fields of one group differ in comparator or in bitsize; and when no name belongs to
  two groups and the fields of every group agree in comparator and bitsize, it returns
  the configuration with the fields and groups as given. (A group is a set: it cannot
  hold a name twice.)
\<close>

theorem ctor_exchange_group_checks:
  assumes "fs \<noteq> []" and "bl \<noteq> 0"
    and "\<forall>g\<in>set gs. g \<noteq> {||} \<and> (\<forall>a\<in>fset g. map_of fs a \<noteq> None)"
  shows "(((\<exists>a. 1 < length (filter (\<lambda>g. a |\<in>| g) gs))
           \<or> (\<exists>g\<in>set gs. \<exists>a\<in>fset g. \<exists>b\<in>fset g.
                 comparator (the (map_of fs a)) \<noteq> comparator (the (map_of fs b)))
           \<or> (\<exists>g\<in>set gs. \<exists>a\<in>fset g. \<exists>b\<in>fset g.
                 bitsize (the (map_of fs a)) \<noteq> bitsize (the (map_of fs b))))
          \<longrightarrow> EpilinkConfig_ctor fs gs t tt mm bl = Inl InvalidArgument)
       \<and> ((\<forall>a. length (filter (\<lambda>g. a |\<in>| g) gs) \<le> 1)
           \<and> (\<forall>g\<in>set gs. \<forall>a\<in>fset g. \<forall>b\<in>fset g.
                 comparator (the (map_of fs a)) = comparator (the (map_of fs b)))
           \<and> (\<forall>g\<in>set gs. \<forall>a\<in>fset g. \<forall>b\<in>fset g.
                 bitsize (the (map_of fs a)) = bitsize (the (map_of fs b)))
          \<longrightarrow> (\<exists>cfg. EpilinkConfig_ctor fs gs t tt mm bl = Inr cfg
                  \<and> cfg_fields cfg = fs \<and> exchange_groups cfg = gs))"
  (is "(?bad \<longrightarrow> _) \<and> (?ok \<longrightarrow> _)")
proof (intro conjI impI)
  assume ?bad
  then have "\<not> ?ok" by (auto simp: not_le)
  then show "EpilinkConfig_ctor fs gs t tt mm bl = Inl InvalidArgument"
    unfolding ctor_checks_eq [OF assms] by (rule if_not_P)
next
  assume ok: ?ok
  have "EpilinkConfig_ctor fs gs t tt mm bl =
      Inr \<lparr> cfg_fields = fs, exchange_groups = gs, threshold = t, tthreshold = tt,
                 matching_mode = mm, bitlen = bl, nfields = of_nat (length fs),
                 max_weight = Max (set (map (\<lambda>f. weight (snd f)) fs)),
                 dice_prec = 16 - 1 - hw_size (max_bm_size fs),
                 weight_prec = (bl - ceil_log2 (of_nat (length fs) * of_nat (length fs))
                                   - (16 - 1 - hw_size (max_bm_size fs))) div 2 \<rparr>"
    unfolding ctor_checks_eq [OF assms] by (rule if_P [OF ok])
  then show "\<exists>cfg. EpilinkConfig_ctor fs gs t tt mm bl = Inr cfg
                  \<and> cfg_fields cfg = fs \<and> exchange_groups cfg = gs"
    by simp
qed

text \<open>
  Three fields: the group of the two bitmasks is accepted, a group of a bitmask and an
  integer is refused, and so are two groups that share a field.
\<close>

theorem ctor_exchange_group_checks_witness:
  "isl (EpilinkConfig_ctor fields_3 [{|''bm_1'', ''bm_2''|}] (1 / 2) (1 / 4) False 32) = False
   \<and> cfg_fields (projr (EpilinkConfig_ctor fields_3 [{|''bm_1'', ''bm_2''|}] (1 / 2) (1 / 4) False 32))
       = fields_3
   \<and> exchange_groups (projr (EpilinkConfig_ctor fields_3 [{|''bm_1'', ''bm_2''|}] (1 / 2) (1 / 4) False 32))
       = [{|''bm_1'', ''bm_2''|}]
   \<and> EpilinkConfig_ctor fields_3 [{|''bm_1'', ''int_1''|}] (1 / 2) (1 / 4) False 32
       = Inl InvalidArgument
   \<and> EpilinkConfig_ctor fields_3 [{|''bm_1''|}, {|''bm_2'', ''bm_1''|}] (1 / 2) (1 / 4) False 32
       = Inl InvalidArgument"
proof -
  have ne: "fields_3 \<noteq> []" by (simp add: fields_3_def)
  have bl: "(32 :: size_t) \<noteq> 0" by simp
  have n1: "\<forall>g\<in>set [{|''bm_1'', ''bm_2''|}]. g \<noteq> {||} \<and> (\<forall>a\<in>fset g. map_of fields_3 a \<noteq> None)"
    by (simp add: fields_3_def)
  have n2: "\<forall>g\<in>set [{|''bm_1'', ''int_1''|}]. g \<noteq> {||} \<and> (\<forall>a\<in>fset g. map_of fields_3 a \<noteq> None)"
    by (simp add: fields_3_def)
  have n3: "\<forall>g\<in>set [{|''bm_1''|}, {|''bm_2'', ''bm_1''|}].
      g \<noteq> {||} \<and> (\<forall>a\<in>fset g. map_of fields_3 a \<noteq> None)"
    by (simp add: fields_3_def)
  have ok1: "(\<forall>a. length (filter (\<lambda>g. a |\<in>| g) [{|''bm_1'', ''bm_2''|}]) \<le> 1)
           \<and> (\<forall>g\<in>set [{|''bm_1'', ''bm_2''|}]. \<forall>a\<in>fset g. \<forall>b\<in>fset g.
                 comparator (the (map_of fields_3 a)) = comparator (the (map_of fields_3 b)))
           \<and> (\<forall>g\<in>set [{|''bm_1'', ''bm_2''|}]. \<forall>a\<in>fset g. \<forall>b\<in>fset g.
                 bitsize (the (map_of fields_3 a)) = bitsize (the (map_of fields_3 b)))"
    by (simp add: fields_3_def bm_1_def bm_2_def)
  have "comparator (the (map_of fields_3 ''bm_1'')) \<noteq> comparator (the (map_of fields_3 ''int_1''))"
    by (simp add: fields_3_def bm_1_def int_1_def)
  moreover have "''bm_1'' \<in> fset {|''bm_1'', ''int_1''|}" and "''int_1'' \<in> fset {|''bm_1'', ''int_1''|}"
    by simp_all
  moreover have "{|''bm_1'', ''int_1''|} \<in> set [{|''bm_1'', ''int_1''|}]" by simp
  ultimately have bad2: "\<exists>g\<in>set [{|''bm_1'', ''int_1''|}]. \<exists>a\<in>fset g. \<exists>b\<in>fset g.
                 comparator (the (map_of fields_3 a)) \<noteq> comparator (the (map_of fields_3 b))"
    by (intro bexI [of _ "{|''bm_1'', ''int_1''|}"] bexI [of _ "''bm_1''"] bexI [of _ "''int_1''"])
  have bad3: "\<exists>a. 1 < length (filter (\<lambda>g. a |\<in>| g) [{|''bm_1''|}, {|''bm_2'', ''bm_1''|}])"
    by (rule exI [of _ "''bm_1''"]) simp
  note t1 = ctor_exchange_group_checks [OF ne bl n1, of "1 / 2" "1 / 4" False, THEN conjunct2, THEN mp, OF ok1]
  note t2 = ctor_exchange_group_checks [OF ne bl n2, of "1 / 2" "1 / 4" False, THEN conjunct1, THEN mp, OF disjI2, OF disjI1, OF bad2]
  note t3 = ctor_exchange_group_checks [OF ne bl n3, of "1 / 2" "1 / 4" False, THEN conjunct1, THEN mp, OF disjI1, OF bad3]
  from t1 obtain cfg where
    "EpilinkConfig_ctor fields_3 [{|''bm_1'', ''bm_2''|}] (1 / 2) (1 / 4) False 32 = Inr cfg"
    and "cfg_fields cfg = fields_3" and "exchange_groups cfg = [{|''bm_1'', ''bm_2''|}]" by blast
  then have "isl (EpilinkConfig_ctor fields_3 [{|''bm_1'', ''bm_2''|}] (1 / 2) (1 / 4) False 32) = False
     \<and> cfg_fields (projr (EpilinkConfig_ctor fields_3 [{|''bm_1'', ''bm_2''|}] (1 / 2) (1 / 4) False 32))
       = fields_3
     \<and> exchange_groups (projr (EpilinkConfig_ctor fields_3 [{|''bm_1'', ''bm_2''|}] (1 / 2) (1 / 4) False 32))
       = [{|''bm_1'', ''bm_2''|}]" by simp
  with t2 t3 show ?thesis by (simp only: simp_thms)
qed

text \<open>
  Claim C9 as stated fails. The single group \<open>{bm_2}\<close> is disjoint from every other
  group and has no two fields that differ, but \<open>bm_2\<close> is not a configured field: the
  constructor does not succeed, \<open>fields.at\<close> throws \<open>std::out_of_range\<close>. Construction
  does not succeed either for an empty group (\<open>*group.cbegin()\<close> has no defined
  behaviour), for \<open>bitlen = 0\<close> (the assertion of the planner fails, here for the
  field \<open>bm_1\<close> without groups), and for an empty field map (the model of
  \<open>sel::max_element\<close> has no value to return), although none of these inputs has two
  groups that share a name or a group with two different fields.
\<close>

theorem ctor_unknown_group_field_counterexample:
  "length [{|''bm_2''|}] = 1 \<and> fcard {|''bm_2''|} = 1
   \<and> EpilinkConfig_ctor [(''bm_1'', bm_1)] [{|''bm_2''|}] (1 / 2) (1 / 4) False 32 = Inl OutOfRange
   \<and> EpilinkConfig_ctor [(''bm_1'', bm_1)] [{||}] (1 / 2) (1 / 4) False 32 = Inl UndefinedBehaviour
   \<and> EpilinkConfig_ctor [(''bm_1'', bm_1)] [] (1 / 2) (1 / 4) False 0 = Inl AssertionFailed
   \<and> EpilinkConfig_ctor [] [] (1 / 2) (1 / 4) False 32 = Inl UndefinedBehaviour"
  by code_simp

section \<open>The life cycle of the engine\<close>

text \<open>
  Claim C7 as stated fails. \<open>build_circuit(0)\<close> on the engine as constructed throws
  nothing and sets the flag \<open>is_built\<close>.
\<close>

theorem build_circuit_empty_database_counterexample:
  "snd (build_circuit 0 created) = Inr ()
   \<and> is_built (fst (build_circuit 0 created)) = True"
  by (simp add: build_circuit_def created_def)

text \<open>
  Claim C7, amended. \<open>build_circuit(nvals)\<close> ignores \<open>nvals\<close>: for every \<open>nvals\<close>,
  zero included, it throws nothing and sets \<open>is_built\<close>, changing nothing else.
\<close>

theorem build_circuit_ignores_nvals:
  "snd (build_circuit nvals sel) = Inr ()
   \<and> fst (build_circuit nvals sel) = sel\<lparr>is_built := True\<rparr>
   \<and> is_built (fst (build_circuit nvals sel))"
  by (simp add: build_circuit_def)

text \<open>
  Claim C8 as stated fails. After \<open>build_circuit\<close>, \<open>run_setup_phase\<close> and a completed
  \<open>run_as_client\<close> (or \<open>run_as_server\<close>) the flag \<open>is_built\<close> is still set: the
  engine is not back in the state Created.
\<close>

theorem run_keeps_built_counterexample:
  "run_as_client (Inr ()) (Inr result_0)
      (fst (run_setup_phase (fst (build_circuit 1 created))))
     = (\<lparr> is_built = True, is_setup = False \<rparr>, Inr result_0)
   \<and> run_as_server (Inr ()) (Inr result_0)
      (fst (run_setup_phase (fst (build_circuit 1 created))))
     = (\<lparr> is_built = True, is_setup = False \<rparr>, Inr result_0)"
  by (simp add: run_as_client_def run_as_server_def run_circuit_def run_setup_phase_def
      build_circuit_def created_def)

lemma run_as_client_completes:
  assumes "snd (run_as_client inp circ sel) = Inr res"
  shows "fst (run_as_client inp circ sel) = sel\<lparr>is_setup := False\<rparr>"
    and "is_built sel \<or> is_setup sel"
  using assms
  by (auto simp: run_as_client_def run_circuit_def run_setup_phase_def
      split: if_splits sum.splits)

lemma run_as_server_completes:
  assumes "snd (run_as_server inp circ sel) = Inr res"
  shows "fst (run_as_server inp circ sel) = sel\<lparr>is_setup := False\<rparr>"
    and "is_built sel \<or> is_setup sel"
  using assms
  by (auto simp: run_as_server_def run_circuit_def run_setup_phase_def
      split: if_splits sum.splits)

text \<open>
  Claim C8, amended. A \<open>run_as_client\<close> or \<open>run_as_server\<close> that completes clears the
  flag \<open>is_setup\<close> and leaves \<open>is_built\<close> as it was; a built engine therefore runs
  again without a new \<open>build_circuit\<close> (the run performs the setup phase itself), and
  only \<open>reset\<close> clears both flags.
\<close>

theorem run_clears_setup_only:
  "(snd (run_as_client inp circ sel) = Inr res \<longrightarrow>
      fst (run_as_client inp circ sel) = sel\<lparr>is_setup := False\<rparr>)
   \<and> (snd (run_as_server inp circ sel) = Inr res \<longrightarrow>
      fst (run_as_server inp circ sel) = sel\<lparr>is_setup := False\<rparr>)
   \<and> (is_built sel \<longrightarrow>
      run_as_client (Inr ()) (Inr res) sel = (sel\<lparr>is_setup := False\<rparr>, Inr res)
      \<and> run_as_server (Inr ()) (Inr res) sel = (sel\<lparr>is_setup := False\<rparr>, Inr res))
   \<and> reset sel = \<lparr> is_built = False, is_setup = False \<rparr>"
proof -
  have "run_as_client (Inr ()) (Inr res) sel = (sel\<lparr>is_setup := False\<rparr>, Inr res)"
    and "run_as_server (Inr ()) (Inr res) sel = (sel\<lparr>is_setup := False\<rparr>, Inr res)"
    if "is_built sel"
    using that
    by (simp_all add: run_as_client_def run_as_server_def run_circuit_def run_setup_phase_def)
  moreover have "reset sel = \<lparr> is_built = False, is_setup = False \<rparr>"
    by (simp add: reset_def)
  ultimately show ?thesis
    using run_as_client_completes(1) run_as_server_completes(1) by blast
qed

text \<open>
  A run from the state SetupDone ends with \<open>is_built\<close> set and \<open>is_setup\<close> cleared,
  and a second run from that state completes.
\<close>

theorem run_clears_setup_only_witness:
  "snd (run_as_client (Inr ()) (Inr result_0) \<lparr> is_built = True, is_setup = True \<rparr>) = Inr result_0
   \<and> fst (run_as_client (Inr ()) (Inr result_0) \<lparr> is_built = True, is_setup = True \<rparr>)
       = \<lparr> is_built = True, is_setup = False \<rparr>
   \<and> snd (run_as_server (Inr ()) (Inr result_0) \<lparr> is_built = True, is_setup = True \<rparr>) = Inr result_0
   \<and> fst (run_as_server (Inr ()) (Inr result_0) \<lparr> is_built = True, is_setup = True \<rparr>)
       = \<lparr> is_built = True, is_setup = False \<rparr>
   \<and> run_as_client (Inr ()) (Inr result_0) \<lparr> is_built = True, is_setup = False \<rparr>
       = (\<lparr> is_built = True, is_setup = False \<rparr>, Inr result_0)"
proof -
  have c: "snd (run_as_client (Inr ()) (Inr result_0) \<lparr> is_built = True, is_setup = True \<rparr>) = Inr result_0"
    by (simp add: run_as_client_def run_circuit_def)
  have s: "snd (run_as_server (Inr ()) (Inr result_0) \<lparr> is_built = True, is_setup = True \<rparr>) = Inr result_0"
    by (simp add: run_as_server_def run_circuit_def)
  have b: "is_built \<lparr> is_built = True, is_setup = False \<rparr>" by simp
  show ?thesis
    using c s b
      run_clears_setup_only [of "Inr ()" "Inr result_0" "\<lparr> is_built = True, is_setup = True \<rparr>" result_0]
      run_clears_setup_only [of "Inr ()" "Inr result_0" "\<lparr> is_built = True, is_setup = False \<rparr>" result_0]
    by simp
qed

section \<open>The maximal weight\<close>

lemma set_precisions_max_weight: "max_weight (snd (set_precisions a b cfg)) = max_weight cfg"
  by (simp add: set_precisions_def)

lemma set_ideal_precision_max_weight: "max_weight (snd (set_ideal_precision cfg)) = max_weight cfg"
  by (simp add: set_ideal_precision_def Let_def set_precisions_max_weight)

lemma field_weight_rescale_InrD:
  assumes "field_weight_rescale cfg ileft iright = Inr c"
  shows "divisor c = max_weight cfg" and "prec c = weight_prec cfg"
  using assms
  by (auto simp: field_weight_rescale_def split: sum.splits if_splits)

text \<open>
  Claim C10. For a non-empty field map the constructor sets \<open>max_weight\<close> to the
  largest weight of the fields; \<open>set_precisions\<close> and \<open>set_ideal_precision\<close> do not
  change it; and it is the divisor that \<open>field_weight\<close> passes to \<open>rescale_weight\<close>.
\<close>

theorem max_weight_is_maximum:
  "(fs \<noteq> [] \<and> EpilinkConfig_ctor fs gs t tt mm bl = Inr cfg \<longrightarrow>
      max_weight cfg = Max (set (map (\<lambda>f. weight (snd f)) fs)))
   \<and> max_weight (snd (set_precisions a b cfg1)) = max_weight cfg1
   \<and> max_weight (snd (set_ideal_precision cfg1)) = max_weight cfg1
   \<and> (field_weight_rescale cfg1 ileft iright = Inr c \<longrightarrow> divisor c = max_weight cfg1)"
proof -
  have "max_weight cfg = Max (set (map (\<lambda>f. weight (snd f)) fs))"
    if "fs \<noteq> []" and "EpilinkConfig_ctor fs gs t tt mm bl = Inr cfg"
  proof -
    from that(1) have "max_element (map (\<lambda>f. weight (snd f)) fs)
        = Some (Max (set (map (\<lambda>f. weight (snd f)) fs)))"
      by (intro max_element_Max) simp
    with ctor_InrD(10) [OF that(2)] show ?thesis by simp
  qed
  then show ?thesis
    using set_precisions_max_weight set_ideal_precision_max_weight field_weight_rescale_InrD(1)
    by blast
qed

text \<open>
  The three fields have the weights 2, 4 and 1, so \<open>max_weight = 4\<close>; in the
  configuration of \<open>bm_1\<close> alone the divisor is 2.
\<close>

theorem max_weight_is_maximum_witness:
  "fields_3 \<noteq> []
   \<and> isl (EpilinkConfig_ctor fields_3 [{|''bm_1'', ''bm_2''|}] (1 / 2) (1 / 4) False 32) = False
   \<and> max_weight (projr (EpilinkConfig_ctor fields_3 [{|''bm_1'', ''bm_2''|}] (1 / 2) (1 / 4) False 32)) = 4
   \<and> isl (field_weight_rescale cfg_bm_1 ''bm_1'' ''bm_1'') = False
   \<and> divisor (projr (field_weight_rescale cfg_bm_1 ''bm_1'' ''bm_1'')) = 2"
proof -
  have "\<not> isl (EpilinkConfig_ctor fields_3 [{|''bm_1'', ''bm_2''|}] (1 / 2) (1 / 4) False 32)"
    by code_simp
  then obtain cfg where c: "EpilinkConfig_ctor fields_3 [{|''bm_1'', ''bm_2''|}] (1 / 2) (1 / 4) False 32 = Inr cfg"
    by (cases "EpilinkConfig_ctor fields_3 [{|''bm_1'', ''bm_2''|}] (1 / 2) (1 / 4) False 32") simp_all
  obtain r where r: "field_weight_rescale cfg_bm_1 ''bm_1'' ''bm_1'' = Inr r"
    by (simp add: field_weight_rescale_def cfg_bm_1_def fields_at_def)
  have ne: "fields_3 \<noteq> []" by (simp add: fields_3_def)
  have m: "Max (set (map (\<lambda>f. weight (snd f)) fields_3)) = 4"
    by (simp add: fields_3_def bm_1_def bm_2_def int_1_def)
  have d: "max_weight cfg_bm_1 = 2" by (simp add: cfg_bm_1_def)
  show ?thesis
    using ne c r m d
      max_weight_is_maximum [of fields_3 "[{|''bm_1'', ''bm_2''|}]" "1 / 2" "1 / 4" False 32 cfg
         0 0 cfg_bm_1 "''bm_1''" "''bm_1''" r]
    by simp
qed

section \<open>Rescaling of weights\<close>

text \<open>The exponent that \<open>ilog2\<close> computes.\<close>

lemma ilog2_bounds:
  assumes "0 < x"
  shows "2 powi (ilog2 x) \<le> x \<and> x < 2 powi (ilog2 x + 1)"
  using assms
proof (induction x rule: ilog2.induct)
  case (1 x)
  from "1.prems" have pos: "\<not> x \<le> 0" by simp
  show ?case
  proof (cases "2 \<le> x")
    case True
    have e: "ilog2 x = ilog2 (x / 2) + 1" using pos True by (subst ilog2.simps) simp
    from "1.prems" have "0 < x / 2" by simp
    from "1.IH"(1) [OF pos True this]
    have ih: "2 powi ilog2 (x / 2) \<le> x / 2" "x / 2 < 2 powi (ilog2 (x / 2) + 1)" by simp_all
    have s: "(2::real) powi (k + 1) = 2 powi k * 2" for k by (rule power_int_add_1) simp
    from ih show ?thesis unfolding e s by simp
  next
    case False
    show ?thesis
    proof (cases "x < 1")
      case True
      have e: "ilog2 x = ilog2 (x * 2) - 1" using pos False True by (subst ilog2.simps) simp
      from "1.prems" have "0 < x * 2" by simp
      from "1.IH"(2) [OF pos False True this]
      have ih: "2 powi ilog2 (x * 2) \<le> x * 2" "x * 2 < 2 powi (ilog2 (x * 2) + 1)" by simp_all
      have s: "(2::real) powi (k + 1) = 2 powi k * 2" for k by (rule power_int_add_1) simp
      have s': "(2::real) powi k = 2 powi (k - 1) * 2" for k using s [of "k - 1"] by simp
      from ih(1) have "2 powi (ilog2 (x * 2) - 1) \<le> x" unfolding s' [of "ilog2 (x * 2)"] by simp
      moreover from ih(2) have "x < 2 powi ilog2 (x * 2)" unfolding s by simp
      ultimately show ?thesis unfolding e by simp
    next
      case ge: False
      have e: "ilog2 x = 0" using pos False ge by (subst ilog2.simps) simp
      from False ge show ?thesis unfolding e by simp
    qed
  qed
qed

lemma ilog2_less:
  assumes "0 < x" and "x < 2 powi n"
  shows "ilog2 x < n"
proof (rule ccontr)
  assume "\<not> ilog2 x < n"
  then have "n \<le> ilog2 x" by simp
  then have "(2::real) powi n \<le> 2 powi ilog2 x" by (rule power_int_increasing) simp
  also have "\<dots> \<le> x" using ilog2_bounds [OF assms(1)] by simp
  finally show False using assms(2) by simp
qed

lemma ilog2_ge:
  assumes "0 < x" and "2 powi n \<le> x"
  shows "n \<le> ilog2 x"
proof (rule ccontr)
  assume "\<not> n \<le> ilog2 x"
  then have "ilog2 x + 1 \<le> n" by simp
  then have "(2::real) powi (ilog2 x + 1) \<le> 2 powi n" by (rule power_int_increasing) simp
  with ilog2_bounds [OF assms(1)] have "x < 2 powi n" by simp
  with assms(2) show False by simp
qed

lemma round_half_even_le:
  assumes "y \<le> of_int m"
  shows "round_half_even y \<le> m"
proof -
  have f: "\<lfloor>y\<rfloor> \<le> m" using assms by (simp add: floor_le_iff)
  show ?thesis
  proof (cases "y = of_int \<lfloor>y\<rfloor>")
    case True
    then have "y - of_int \<lfloor>y\<rfloor> = 0" by simp
    then have "round_half_even y = \<lfloor>y\<rfloor>" by (simp add: round_half_even_def Let_def)
    with f show ?thesis by simp
  next
    case False
    then have "of_int \<lfloor>y\<rfloor> < y" using of_int_floor_le [of y] by (auto simp: less_le)
    with assms have "(of_int \<lfloor>y\<rfloor> :: real) < of_int m" by simp
    then have "\<lfloor>y\<rfloor> < m" by simp
    then have "\<lfloor>y\<rfloor> + 1 \<le> m" by simp
    moreover have "round_half_even y \<le> \<lfloor>y\<rfloor> + 1" by (simp add: round_half_even_def Let_def)
    ultimately show ?thesis by simp
  qed
qed

lemma round_half_even_ge:
  assumes "of_int m \<le> y"
  shows "m \<le> round_half_even y"
proof -
  from assms have "m \<le> \<lfloor>y\<rfloor>" by (simp add: le_floor_iff)
  moreover have "\<lfloor>y\<rfloor> \<le> round_half_even y" by (simp add: round_half_even_def Let_def)
  ultimately show ?thesis by simp
qed

lemma round_half_even_of_int: "round_half_even (of_int m) = m"
  by (rule antisym) (simp_all add: round_half_even_le round_half_even_ge)

text \<open>A positive number below a multiple of its own unit in the last place rounds below it.\<close>

lemma round_to_double_le:
  assumes x: "0 < x" and le: "x \<le> of_int m * 2 powi j"
    and j: "max (ilog2 x) (- 1022) - 52 \<le> j"
  shows "round_to_double x \<le> of_int m * 2 powi j"
proof -
  define u where "u = max (ilog2 x) (- 1022) - 52"
  define ulp :: real where "ulp = 2 powi u"
  have ulp0: "0 < ulp" by (simp add: ulp_def)
  have rd: "round_to_double x = of_int (round_half_even (x / ulp)) * ulp"
    using x by (simp add: round_to_double_def Let_def ulp_def u_def)
  from j have "0 \<le> j - u" by (simp add: u_def)
  then obtain k where k: "j - u = int k" by (metis nonneg_int_cases)
  have "(2::real) powi j = 2 powi (u + (j - u))" by simp
  also have "\<dots> = 2 powi u * 2 powi (j - u)" by (rule power_int_add) simp
  also have "\<dots> = ulp * 2 ^ k" unfolding k power_int_of_nat ulp_def ..
  finally have pj: "(2::real) powi j = ulp * 2 ^ k" .
  have "x / ulp \<le> of_int m * 2 powi j / ulp" using le ulp0 by (simp add: divide_right_mono)
  also have "\<dots> = of_int (m * 2 ^ k)" using ulp0 by (simp add: pj)
  finally have "round_half_even (x / ulp) \<le> m * 2 ^ k" by (rule round_half_even_le)
  then have "(of_int (round_half_even (x / ulp)) :: real) \<le> of_int (m * 2 ^ k)" by (simp only: of_int_le_iff)
  then have "of_int (round_half_even (x / ulp)) * ulp \<le> of_int (m * 2 ^ k) * ulp"
    using ulp0 by (simp add: mult_right_mono)
  also have "\<dots> = of_int m * 2 powi j" by (simp add: pj)
  finally show ?thesis unfolding rd .
qed

lemma round_to_double_nonneg:
  assumes "0 \<le> x"
  shows "0 \<le> round_to_double x"
proof (cases "x = 0")
  case True
  then show ?thesis by (simp add: round_to_double_def)
next
  case False
  define ulp :: real where "ulp = 2 powi (max (ilog2 \<bar>x\<bar>) (- 1022) - 52)"
  have ulp0: "0 < ulp" by (simp add: ulp_def)
  have rd: "round_to_double x = of_int (round_half_even (x / ulp)) * ulp"
    using False by (simp add: round_to_double_def Let_def ulp_def)
  from assms ulp0 have "of_int 0 \<le> x / ulp" by simp
  then have "0 \<le> round_half_even (x / ulp)" by (rule round_half_even_ge)
  with ulp0 show ?thesis unfolding rd by simp
qed

text \<open>A multiple of the unit in the last place is a double: it rounds to itself.\<close>

lemma round_to_double_exact:
  assumes x: "x = of_int m * 2 powi j" and j: "max (ilog2 \<bar>x\<bar>) (- 1022) - 52 \<le> j"
  shows "round_to_double x = x"
proof (cases "x = 0")
  case True
  then show ?thesis by (simp add: round_to_double_def)
next
  case False
  define u where "u = max (ilog2 \<bar>x\<bar>) (- 1022) - 52"
  define ulp :: real where "ulp = 2 powi u"
  have ulp0: "0 < ulp" by (simp add: ulp_def)
  have rd: "round_to_double x = of_int (round_half_even (x / ulp)) * ulp"
    using False by (simp add: round_to_double_def Let_def ulp_def u_def)
  from j have "0 \<le> j - u" by (simp add: u_def)
  then obtain k where k: "j - u = int k" by (metis nonneg_int_cases)
  have "(2::real) powi j = 2 powi (u + (j - u))" by simp
  also have "\<dots> = 2 powi u * 2 powi (j - u)" by (rule power_int_add) simp
  also have "\<dots> = ulp * 2 ^ k" unfolding k power_int_of_nat ulp_def ..
  finally have pj: "(2::real) powi j = ulp * 2 ^ k" .
  have "x / ulp = of_int (m * 2 ^ k)" using ulp0 by (simp add: x pj)
  then have "round_half_even (x / ulp) = m * 2 ^ k" by (simp only: round_half_even_of_int)
  then have "round_to_double x = of_int (m * 2 ^ k) * ulp" unfolding rd by simp
  also have "\<dots> = x" by (simp add: x pj)
  finally show ?thesis .
qed

lemma round_to_double_of_int:
  assumes "0 \<le> m" and "m < 2 ^ 53"
  shows "round_to_double (of_int m) = of_int m"
proof (cases "m = 0")
  case True
  then show ?thesis by (simp add: round_to_double_def)
next
  case False
  with assms have pos: "(0::real) < of_int m" by simp
  from assms(2) have "(of_int m :: real) < of_int (2 ^ 53)" by (simp only: of_int_less_iff)
  then have "(of_int m :: real) < 2 powi 53" by simp
  with pos have "ilog2 (of_int m) < 53" by (rule ilog2_less)
  then have j: "max (ilog2 \<bar>of_int m :: real\<bar>) (- 1022) - 52 \<le> 0" using pos by simp
  show ?thesis by (rule round_to_double_exact [where m = m and j = 0, OF _ j]) simp
qed

lemma double_of_real_bounded:
  assumes "0 \<le> x" and "x \<le> of_int m" and "m < 2 ^ 53"
  shows "\<exists>r. double_of_real x = Some r \<and> r = round_to_double x \<and> 0 \<le> r \<and> r \<le> of_int m"
proof -
  define r where "r = round_to_double x"
  have r0: "0 \<le> r" unfolding r_def using assms(1) by (rule round_to_double_nonneg)
  from assms(3) have "(of_int m :: real) < of_int (2 ^ 53)" by (simp only: of_int_less_iff)
  then have m53: "(of_int m :: real) < 2 powi 53" by simp
  have rm: "r \<le> of_int m"
  proof (cases "x = 0")
    case True
    with assms(2) show ?thesis by (simp add: r_def round_to_double_def)
  next
    case False
    with assms(1) have pos: "0 < x" by simp
    from assms(2) m53 have "x < 2 powi 53" by simp
    with pos have "ilog2 x < 53" by (rule ilog2_less)
    then have j: "max (ilog2 x) (- 1022) - 52 \<le> 0" by simp
    have "round_to_double x \<le> of_int m * 2 powi 0"
      by (rule round_to_double_le [OF pos _ j]) (simp add: assms(2))
    then show ?thesis by (simp add: r_def)
  qed
  have fin: "r = 0 \<or> ilog2 \<bar>r\<bar> < 1024"
  proof (cases "r = 0")
    case True
    then show ?thesis by simp
  next
    case False
    with r0 have pos: "0 < r" by simp
    from rm m53 have "r < 2 powi 53" by simp
    with pos have "ilog2 r < 53" by (rule ilog2_less)
    with pos show ?thesis by simp
  qed
  have "double_of_real x = Some r"
    using fin by (simp add: double_of_real_def Let_def r_def [symmetric])
  with r0 rm show ?thesis by (simp add: r_def)
qed

lemma uint_max_el:
  assumes "n < 64"
  shows "uint (push_bit n 1 - 1 :: 64 word) = 2 ^ n - 1"
proof -
  have p: "(push_bit n 1 :: 64 word) = 2 ^ n" by (simp add: push_bit_of_1)
  have "(2 ^ n - 1 :: 64 word) = word_of_int (2 ^ n - 1)" by simp
  then have "uint (2 ^ n - 1 :: 64 word) = (2 ^ n - 1) mod 2 ^ 64"
    by (simp only: uint_word_of_int) simp
  moreover have "(2::int) ^ n < 2 ^ 64" using assms by (intro power_strict_increasing) simp_all
  moreover have "(1::int) \<le> 2 ^ n" by simp
  ultimately show ?thesis unfolding p by simp
qed

lemma llround_bounded:
  assumes "0 \<le> x" and "x \<le> of_int m" and "m < 2 ^ 63"
  shows "llround x = Some (round x)" and "0 \<le> round x" and "round x \<le> m"
proof -
  have r: "round x = \<lfloor>x + 1 / 2\<rfloor>" by (simp add: round_def)
  from assms(1) have r0: "0 \<le> round x" unfolding r by simp
  from assms(2) have "x + 1 / 2 < of_int (m + 1)" by simp
  then have "\<lfloor>x + 1 / 2\<rfloor> < m + 1" by (simp only: floor_less_iff)
  then have rm: "round x \<le> m" unfolding r by simp
  with assms(3) have "round x < 2 ^ 63" by simp
  with r0 assms(1) show "llround x = Some (round x)"
    by (simp add: llround_def Let_def r)
  from r0 show "0 \<le> round x" .
  from rm show "round x \<le> m" .
qed

text \<open>
  Claim C6 as stated fails. For \<open>prec = 54\<close> the conversion of \<open>max_el = 2^54 - 1\<close>
  to \<open>double\<close> rounds to \<open>2^54\<close>, so the maximal weight rescales to \<open>2^54\<close>, which
  is neither \<open>2^54 - 1\<close> nor in the range up to it. For \<open>prec = 53\<close> the weight \<open>2\<close>
  with maximal weight \<open>3\<close> rescales to \<open>6004799503160660\<close>, because the quotient is
  rounded before the multiplication, whereas \<open>2/3 * (2^53 - 1)\<close> rounds to
  \<open>6004799503160661\<close>. For \<open>max_w = 0\<close> (and \<open>w = 0\<close>) the quotient is a NaN and the
  call has no defined result.
\<close>

theorem rescale_weight_rounding_counterexample:
  "rescale_weight 2 54 2 = Some 18014398509481984
   \<and> (18014398509481984 :: 64 word) = 2 ^ 54
   \<and> rescale_weight 2 53 3 = Some 6004799503160660
   \<and> round (2 / 3 * (2 ^ 53 - 1) :: real) = 6004799503160661
   \<and> rescale_weight 0 10 0 = None"
  by code_simp

text \<open>
  Claim C6, amended. For \<open>0 \<le> w \<le> max_w\<close>, \<open>0 < max_w\<close> and \<open>prec \<le> 53\<close>:
  \<open>rescale_weight w prec max_w\<close> is the integer nearest to the \<open>double\<close> product of
  the \<open>double\<close> quotient \<open>w / max_w\<close> with \<open>2^prec - 1\<close> (each rounded to the nearest
  \<open>double\<close>), it lies between \<open>0\<close> and \<open>2^prec - 1\<close>, and the maximal weight
  rescales to \<open>2^prec - 1\<close>.
\<close>

theorem rescale_weight_range:
  assumes w: "0 \<le> w" "w \<le> mw" and mw: "0 < mw" and p: "p \<le> 53"
  shows "(\<exists>r. rescale_weight w p mw = Some r
             \<and> int (unat r) = round (round_to_double (round_to_double (w / mw) * (2 ^ unat p - 1)))
             \<and> unat r \<le> 2 ^ unat p - 1)
       \<and> rescale_weight mw p mw = Some (2 ^ unat p - 1)"
proof -
  define n where "n = unat p"
  from p have n53: "n \<le> 53" by (simp add: n_def word_le_nat_alt)
  then have n64: "n < 64" by simp
  from n64 have p64: "\<not> 64 \<le> p" by (simp add: n_def word_le_nat_alt)
  define M :: int where "M = 2 ^ n - 1"
  have M0: "0 \<le> M" by (simp add: M_def)
  have "(2::int) ^ n \<le> 2 ^ 53" using n53 by (intro power_increasing) simp_all
  then have M53: "M < 2 ^ 53" by (simp add: M_def)
  then have M63: "M < 2 ^ 63" by simp
  have um: "uint (push_bit n 1 - 1 :: 64 word) = M" unfolding M_def by (rule uint_max_el [OF n64])
  have um': "uint (2 ^ n - 1 :: 64 word) = M" using um by (simp add: push_bit_of_1)
  have um'': "(unsigned (2 ^ n - 1 :: 64 word) :: real) = of_int M" unfolding um' [symmetric] by simp
  have cm: "round_to_double (of_int M) = of_int M" by (rule round_to_double_of_int [OF M0 M53])
  have Mr: "(of_int M :: real) = 2 ^ n - 1" by (simp add: M_def)
  have step: "rescale_weight v p mw =
      (case double_of_real (v / mw) of
         None \<Rightarrow> None
       | Some q \<Rightarrow>
           (case double_of_real (q * of_int M) of
              None \<Rightarrow> None
            | Some pr \<Rightarrow> (case llround pr of None \<Rightarrow> None | Some r \<Rightarrow> Some (word_of_int r))))" for v
    using p64 mw
    by (simp add: rescale_weight_def Let_def n_def [symmetric] um'' cm double_div_def double_mul_def
          cong: option.case_cong)
  have main: "\<exists>r. rescale_weight v p mw = Some r
             \<and> int (unat r) = round (round_to_double (round_to_double (v / mw) * of_int M))
             \<and> int (unat r) \<le> M" if v: "0 \<le> v" "v \<le> mw" for v
  proof -
    from v mw have q0: "0 \<le> v / mw" and q1: "v / mw \<le> of_int 1" by simp_all
    from double_of_real_bounded [OF q0 q1] obtain q where
      q: "double_of_real (v / mw) = Some q" "q = round_to_double (v / mw)" "0 \<le> q" "q \<le> 1"
      by auto
    from q(3) M0 have y0: "0 \<le> q * of_int M" by simp
    from q(4) M0 have "q * of_int M \<le> 1 * of_int M" by (intro mult_right_mono) simp_all
    then have y1: "q * of_int M \<le> of_int M" by simp
    from double_of_real_bounded [OF y0 y1 M53] obtain pr where
      pr: "double_of_real (q * of_int M) = Some pr" "pr = round_to_double (q * of_int M)"
        "0 \<le> pr" "pr \<le> of_int M"
      by auto
    note ll = llround_bounded [OF pr(3) pr(4) M63]
    have res: "rescale_weight v p mw = Some (word_of_int (round pr))"
      unfolding step by (simp add: q(1) pr(1) ll(1))
    have "round pr < 2 ^ 64" using ll(3) M63 by simp
    with ll(2) have "uint (word_of_int (round pr) :: 64 word) = round pr"
      by (simp add: uint_word_of_int)
    then have u: "int (unat (word_of_int (round pr) :: 64 word)) = round pr" by simp
    from res u ll(3) show ?thesis unfolding pr(2) q(2) by simp
  qed
  from main [OF w] obtain r where r: "rescale_weight w p mw = Some r"
    "int (unat r) = round (round_to_double (round_to_double (w / mw) * of_int M))"
    "int (unat r) \<le> M" by blast
  from nat_mono [OF r(3)] have "unat r \<le> nat M" by (simp only: nat_int)
  also have "nat M = 2 ^ n - 1" by (simp add: M_def nat_diff_distrib nat_power_eq)
  finally have rb: "unat r \<le> 2 ^ unat p - 1" by (simp add: n_def)
  have first: "\<exists>r. rescale_weight w p mw = Some r
             \<and> int (unat r) = round (round_to_double (round_to_double (w / mw) * (2 ^ unat p - 1)))
             \<and> unat r \<le> 2 ^ unat p - 1"
    using r(1) r(2) rb unfolding Mr n_def by blast
  have one: "round_to_double 1 = 1" using round_to_double_of_int [of 1] by simp
  have "double_of_real (mw / mw) = Some 1"
    using mw by (simp add: double_of_real_def Let_def one ilog2.simps)
  moreover have "double_of_real (1 * of_int M) = Some (of_int M)"
    using double_of_real_bounded [of "of_int M" M] M0 M53 cm by auto
  moreover have "llround (of_int M) = Some M"
    using llround_bounded(1) [of "of_int M" M] M0 M63 by simp
  ultimately have "rescale_weight mw p mw = Some (word_of_int M)"
    unfolding step by simp
  also have "(word_of_int M :: 64 word) = 2 ^ unat p - 1" by (simp add: M_def n_def)
  finally have second: "rescale_weight mw p mw = Some (2 ^ unat p - 1)" .
  from first second show ?thesis ..
qed

text \<open>
  With the weights \<open>1\<close> and \<open>4\<close> of the fields \<open>int_1\<close> and \<open>bm_2\<close> and ten bits:
  \<open>1/4 * 1023 = 255.75\<close> rescales to \<open>256\<close> and the maximal weight to \<open>1023\<close>.
\<close>

theorem rescale_weight_range_witness:
  "(0::real) \<le> 1 \<and> (1::real) \<le> 4 \<and> (0::real) < 4 \<and> (10 :: size_t) \<le> 53
   \<and> rescale_weight 1 10 4 = Some 256
   \<and> round (round_to_double (round_to_double (1 / 4) * (2 ^ 10 - 1))) = 256
   \<and> unat (256 :: 64 word) \<le> 2 ^ 10 - 1
   \<and> rescale_weight 4 10 4 = Some 1023"
proof -
  have e: "rescale_weight 1 10 4 = Some 256" by code_simp
  have h: "(0::real) \<le> 1" "(1::real) \<le> 4" "(0::real) < 4" "(10 :: size_t) \<le> 53" by simp_all
  from rescale_weight_range [OF h] e show ?thesis by auto
qed

section \<open>The threshold tests\<close>










text \<open>With such thresholds and \<open>dice_prec < 31\<close> the tests have a result.\<close>

lemma threshold_tests_defined:
  assumes "dice_prec cfg < 31" and "0 \<le> tthreshold cfg" and "tthreshold cfg \<le> threshold cfg"
    and "threshold cfg \<le> 1"
  shows "\<exists>m tm. threshold_tests cfg q = Some (m, tm)"
proof -
  define p where "p = unat (dice_prec cfg)"
  from assms(1) have p: "p < 31" by (simp add: p_def word_less_nat_alt)
  have s: "int_shl_1 (dice_prec cfg) = Some (2 ^ p)"
    using assms(1) by (simp add: int_shl_1_def p_def)
  have conv: "\<exists>w. double_to_CircUnit (x * of_int (2 ^ p)) = Some w" if "0 \<le> x" "x \<le> 1" for x :: real
  proof -
    from that have x0: "0 \<le> x * of_int (2 ^ p)" by simp
    from that have "x * of_int (2 ^ p) \<le> 1 * of_int (2 ^ p)" by (intro mult_right_mono) simp_all
    then have "\<lfloor>x * of_int (2 ^ p)\<rfloor> \<le> \<lfloor>(of_int (2 ^ p) :: real)\<rfloor>" by (intro floor_mono) simp
    then have "\<lfloor>x * of_int (2 ^ p)\<rfloor> \<le> 2 ^ p" by simp
    also have "(2::int) ^ p < 2 ^ 32" using p by (intro power_strict_increasing) simp_all
    finally have "\<lfloor>x * of_int (2 ^ p)\<rfloor> < 2 ^ 32" .
    moreover from x0 have "0 \<le> \<lfloor>x * of_int (2 ^ p)\<rfloor>" by simp
    ultimately show ?thesis using x0 by (simp add: double_to_CircUnit_def Let_def)
  qed
  from assms have "0 \<le> threshold cfg" "tthreshold cfg \<le> 1" by simp_all
  with conv assms obtain T Tt where "double_to_CircUnit (threshold cfg * of_int (2 ^ p)) = Some T"
    and "double_to_CircUnit (tthreshold cfg * of_int (2 ^ p)) = Some Tt" by blast
  with s show ?thesis by (simp add: threshold_tests_def set_constants_def Let_def)
qed

section \<open>The budget over the natural numbers\<close>

text \<open>
  The arithmetic of the planner and of the guard is that of \<open>size_t\<close>. Where no
  intermediate result wraps around, the same statements hold of the numbers themselves.
  The subtractions of the planner do wrap for a bitmask of \<open>32768\<close> bits or more
  (\<open>hw_size\<close> exceeds \<open>15\<close>) and when \<open>ceil_log2 (nfields * nfields) + dice_prec\<close>
  exceeds \<open>bitlen\<close>.
\<close>

lemma unat_sum3:
  fixes a b c :: size_t
  assumes "unat a + 2 * unat b + unat c < 2 ^ 64"
  shows "unat (a + 2 * b + c) = unat a + 2 * unat b + unat c"
proof -
  have b2: "unat (2 * b) = 2 * unat b"
    using assms by (subst unat_mult_lem [THEN iffD1]) simp_all
  have ab: "unat (a + 2 * b) = unat a + 2 * unat b"
    using assms b2 by (subst unat_add_lem [THEN iffD1]) simp_all
  show ?thesis
    using assms ab by (subst unat_add_lem [THEN iffD1]) simp_all
qed

lemma set_precisions_budget_nat:
  assumes "set_precisions a b cfg = (None, cfg')"
    and "unat a + 2 * unat b + ceil_log2_nat (unat (nfields cfg * nfields cfg)) < 2 ^ 64"
  shows "unat (dice_prec cfg') + 2 * unat (weight_prec cfg')
           + ceil_log2_nat (unat (nfields cfg' * nfields cfg')) \<le> unat (bitlen cfg')"
proof -
  define c where "c = ceil_log2 (nfields cfg * nfields cfg)"
  have uc: "unat c = ceil_log2_nat (unat (nfields cfg * nfields cfg))"
    by (simp add: c_def unat_ceil_log2)
  from assms(1) have g: "a + 2 * b + c \<le> bitlen cfg"
    and cfg': "cfg' = cfg\<lparr>dice_prec := a, weight_prec := b\<rparr>"
    by (auto simp: set_precisions_def c_def split: if_splits)
  from assms(2) have "unat (a + 2 * b + c) = unat a + 2 * unat b + unat c"
    by (intro unat_sum3) (simp add: uc)
  with g have "unat a + 2 * unat b + unat c \<le> unat (bitlen cfg)"
    by (simp add: word_le_nat_alt)
  then show ?thesis by (simp add: cfg' uc)
qed

lemma planner_nat:
  assumes ctor: "EpilinkConfig_ctor fs gs t tt mm bl = Inr cfg"
    and hw: "hw_size (max_bm_size fs) \<le> 15"
    and room: "ceil_log2_nat (unat (nfields cfg * nfields cfg)) + unat (dice_prec cfg) \<le> unat bl"
  shows "unat (dice_prec cfg) = 15 - unat (hw_size (max_bm_size fs))"
    and "unat (weight_prec cfg) =
           (unat bl - ceil_log2_nat (unat (nfields cfg * nfields cfg)) - unat (dice_prec cfg)) div 2"
    and "unat (dice_prec cfg) + 2 * unat (weight_prec cfg)
           + ceil_log2_nat (unat (nfields cfg * nfields cfg)) \<le> unat (bitlen cfg)"
proof -
  define c where "c = ceil_log2 (nfields cfg * nfields cfg)"
  have uc: "unat c = ceil_log2_nat (unat (nfields cfg * nfields cfg))"
    by (simp add: c_def unat_ceil_log2)
  note d = ctor_InrD [OF ctor]
  have dp: "dice_prec cfg = 15 - hw_size (max_bm_size fs)" using d(7) by simp
  show udp: "unat (dice_prec cfg) = 15 - unat (hw_size (max_bm_size fs))"
    unfolding dp using hw by (simp add: unat_sub)
  have wp: "weight_prec cfg = (bl - c - dice_prec cfg) div 2"
    using d(8) d(6) by (simp add: c_def)
  from room have cle: "c \<le> bl" by (simp add: word_le_nat_alt uc)
  then have u1: "unat (bl - c) = unat bl - unat c" by (simp add: unat_sub)
  from room have "dice_prec cfg \<le> bl - c" by (simp add: word_le_nat_alt u1 uc)
  then have u2: "unat (bl - c - dice_prec cfg) = unat bl - unat c - unat (dice_prec cfg)"
    by (simp add: unat_sub u1)
  show uwp: "unat (weight_prec cfg) =
           (unat bl - ceil_log2_nat (unat (nfields cfg * nfields cfg)) - unat (dice_prec cfg)) div 2"
    unfolding wp by (simp add: unat_div u2 uc)
  from room show "unat (dice_prec cfg) + 2 * unat (weight_prec cfg)
           + ceil_log2_nat (unat (nfields cfg * nfields cfg)) \<le> unat (bitlen cfg)"
    unfolding uwp d(5) by simp
qed

lemma ceil_log2_nat_eqI: "2 ^ k < n \<Longrightarrow> n \<le> 2 ^ Suc k \<Longrightarrow> ceil_log2_nat n = Suc k"
proof (rule antisym)
  assume "n \<le> 2 ^ Suc k"
  then show "ceil_log2_nat n \<le> Suc k" by (rule ceil_log2_nat_least)
next
  assume lt: "2 ^ k < n"
  show "Suc k \<le> ceil_log2_nat n"
  proof (rule ccontr)
    assume "\<not> Suc k \<le> ceil_log2_nat n"
    then have "ceil_log2_nat n \<le> k" by simp
    then have "(2::nat) ^ ceil_log2_nat n \<le> 2 ^ k" by (intro power_increasing) simp_all
    with ceil_log2_nat_ge [of n] have "n \<le> 2 ^ k" by (rule order_trans)
    with lt show False by simp
  qed
qed

text \<open>
  A single bitmask field of \<open>32768\<close> bits on 32 bits: \<open>hw_size\<close> is \<open>16\<close>, the
  subtraction \<open>16 - 1 - 16\<close> wraps around, and the assertion holds modulo \<open>2 ^ 64\<close>.
\<close>

lemma hw_size_32768: "hw_size 32768 = 16"
proof -
  have "ceil_log2_nat 32769 = Suc 15" by (rule ceil_log2_nat_eqI) simp_all
  then show ?thesis by (simp add: hw_size_def ceil_log2_min1_def ceil_log2_def word_le_nat_alt)
qed

lemma ceil_log2_1: "ceil_log2 1 = 0"
  by (simp add: ceil_log2_def ceil_log2_nat.simps)

lemma planner_wraps_long_bitmask:
  "EpilinkConfig_ctor [(''bm_1'', bm_1\<lparr>bitsize := 32768\<rparr>)] [] (1 / 2) (1 / 4) False 32
     = Inr (cfg_bm_1\<lparr>cfg_fields := [(''bm_1'', bm_1\<lparr>bitsize := 32768\<rparr>)],
                      dice_prec := - 1, weight_prec := 16\<rparr>)"
  by (simp add: EpilinkConfig_ctor_def max_bm_size_def bm_1_def cfg_bm_1_def hw_size_32768
      ceil_log2_1 Let_def)

text \<open>
  Claim C1 fails on the code by a wrap-around. For the single bitmask field of
  \<open>32768\<close> bits on 32 bits the constructor returns a configuration with
  \<open>dice_prec = 2 ^ 64 - 1\<close> and \<open>weight_prec = 16\<close>: the assertion compares the sum
  modulo \<open>2 ^ 64\<close>, which is \<open>31\<close>, with \<open>bitlen = 32\<close>. The precisions themselves
  need \<open>2 ^ 64 + 31\<close> bits, not at most \<open>32\<close>.
\<close>

theorem precision_budget_wraps_long_bitmask:
  "EpilinkConfig_ctor [(''bm_1'', bm_1\<lparr>bitsize := 32768\<rparr>)] [] (1 / 2) (1 / 4) False 32
     = Inr (cfg_bm_1\<lparr>cfg_fields := [(''bm_1'', bm_1\<lparr>bitsize := 32768\<rparr>)],
                      dice_prec := 18446744073709551615, weight_prec := 16\<rparr>)
   \<and> unat (18446744073709551615 :: size_t) + 2 * unat (16 :: size_t)
         + ceil_log2_nat (unat (nfields cfg_bm_1) * unat (nfields cfg_bm_1))
       = 18446744073709551647
   \<and> unat (bitlen cfg_bm_1) = 32
   \<and> (18446744073709551615 :: size_t) + 2 * 16 + ceil_log2 (nfields cfg_bm_1 * nfields cfg_bm_1) = 31"
proof -
  have m: "(18446744073709551615 :: size_t) = - 1" by simp
  have c: "ceil_log2_nat (Suc 0) = 0" by (simp add: ceil_log2_nat.simps)
  have u: "unat (18446744073709551615 :: size_t) = 18446744073709551615" by simp
  have w: "(18446744073709551615 :: size_t) + 2 * 16 = 31" by simp
  show ?thesis
    using planner_wraps_long_bitmask
    by (simp add: cfg_bm_1_def ceil_log2_1 c u w m [symmetric] del: unsigned_numeral)
qed

text \<open>
  Over the natural numbers the guard of \<open>set_precisions\<close> is the claimed test as long
  as the sum stays below \<open>2 ^ 64\<close>.
\<close>

lemma set_precisions_iff_nat:
  assumes "unat a + 2 * unat b + ceil_log2_nat (unat (nfields cfg * nfields cfg)) < 2 ^ 64"
  shows "fst (set_precisions a b cfg) = Some InvalidArgument \<longleftrightarrow>
      unat a + 2 * unat b + ceil_log2_nat (unat (nfields cfg * nfields cfg)) > unat (bitlen cfg)"
proof -
  define c where "c = ceil_log2 (nfields cfg * nfields cfg)"
  have uc: "unat c = ceil_log2_nat (unat (nfields cfg * nfields cfg))"
    by (simp add: c_def unat_ceil_log2)
  from assms have "unat (a + 2 * b + c) = unat a + 2 * unat b + unat c"
    by (intro unat_sum3) (simp add: uc)
  then show ?thesis
    by (simp add: set_precisions_def c_def [symmetric] word_less_nat_alt uc)
qed

text \<open>
  Claim C4 fails on the code by a wrap-around. On 32 bits with one field,
  \<open>set_precisions(2^64 - 1, 1)\<close> is accepted and stores \<open>dice_prec = 2 ^ 64 - 1\<close>: the
  guard compares the sum modulo \<open>2 ^ 64\<close>, which is \<open>1\<close>, with \<open>bitlen = 32\<close>, whereas
  the sum itself is \<open>2 ^ 64 + 1\<close>.
\<close>

theorem set_precisions_accepts_wrapped_sum:
  "set_precisions 18446744073709551615 1 cfg_bm_1
     = (None, cfg_bm_1\<lparr>dice_prec := 18446744073709551615, weight_prec := 1\<rparr>)
   \<and> unat (18446744073709551615 :: size_t) + 2 * unat (1 :: size_t)
         + ceil_log2_nat (unat (nfields cfg_bm_1) * unat (nfields cfg_bm_1))
       = 18446744073709551617
   \<and> unat (bitlen cfg_bm_1) = 32
   \<and> (18446744073709551615 :: size_t) + 2 * 1 + ceil_log2 (nfields cfg_bm_1 * nfields cfg_bm_1) = 1"
proof -
  have m: "(18446744073709551615 :: size_t) = - 1" by simp
  have c: "ceil_log2_nat (Suc 0) = 0" by (simp add: ceil_log2_nat.simps)
  have u: "unat (18446744073709551615 :: size_t) = 18446744073709551615" by simp
  have w: "(18446744073709551615 :: size_t) + 2 * 1 = 1" by simp
  show ?thesis
    by (simp add: set_precisions_def cfg_bm_1_def ceil_log2_1 c u w del: unsigned_numeral)
qed

end
